theory Spec2Isabelle
  imports Main "HOL-Library.Word"
begin

unbundle bit_operations_syntax

section \<open>Data model\<close>

text \<open>
  A Python \<open>str\<close> is modelled as a \<open>string\<close>; one \<open>char\<close> stands for one code point
  below 256.  The records of \<open>ssh_to_terminal.py\<close> follow the source: \<open>SshHost\<close> is the
  dataclass, a profile is whatever \<open>json.load\<close> delivers.
\<close>

record SshHost =
  name :: string
  hostname :: "string option"
  user :: "string option"
  port :: "string option"
  identity_file :: "string option"

text \<open>
  The values of \<open>json.load\<close>.  A float is kept as its IEEE-754 bit pattern, an object as
  its items in insertion order; \<open>None\<close> is \<open>JNull\<close>.
\<close>

datatype json =
    JNull
  | JBool bool
  | JInt int
  | JFloat "64 word"
  | JStr string
  | JList "json list"
  | JDict "(string \<times> json) list"

text \<open>The exceptions the modelled code can raise.\<close>

datatype exn = TypeError | IndexError | UnicodeEncodeError | AttributeError | JSONDecodeError | OSError

section \<open>\<open>SshHost.commandline\<close>\<close>

text \<open>Python's truth value of an \<open>Optional[str]\<close>: \<open>None\<close> and \<open>""\<close> are false.\<close>

fun truthy_opt :: "string option \<Rightarrow> bool" where
  "truthy_opt None = False"
| "truthy_opt (Some s) = (s \<noteq> [])"

text \<open>\<open>sep.join(parts)\<close>\<close>

fun join :: "string \<Rightarrow> string list \<Rightarrow> string" where
  "join sep [] = []"
| "join sep [x] = x"
| "join sep (x # y # ys) = x @ sep @ join sep (y # ys)"

definition commandline :: "SshHost \<Rightarrow> string" where
  "commandline h =
     (let parts = [''ssh''];
          parts = (if truthy_opt (port h) then parts @ [''-p'', the (port h)] else parts);
          parts = (if truthy_opt (identity_file h) then parts @ [''-i'', the (identity_file h)] else parts);
          target = (if truthy_opt (hostname h) then the (hostname h) else name h);
          target = (if truthy_opt (user h) then the (user h) @ ''@'' @ target else target);
          parts = parts @ [target]
      in join '' '' parts)"

text \<open>
  The command line as the specification words it: a field contributes when it is
  \<^emph>\<open>present\<close>, whatever its text.
\<close>

definition spec_commandline :: "SshHost \<Rightarrow> string" where
  "spec_commandline h =
     join '' ''
       ([''ssh'']
        @ (case port h of None \<Rightarrow> [] | Some p \<Rightarrow> [''-p'', p])
        @ (case identity_file h of None \<Rightarrow> [] | Some i \<Rightarrow> [''-i'', i])
        @ [(case user h of None \<Rightarrow> [] | Some u \<Rightarrow> u @ ''@'')
           @ (case hostname h of None \<Rightarrow> name h | Some t \<Rightarrow> t)])"

text \<open>
  A field that is present but empty, taken as absent; and the record with its four
  optional fields taken so.
\<close>

fun nonempty :: "string option \<Rightarrow> string option" where
  "nonempty None = None"
| "nonempty (Some s) = (if s = [] then None else Some s)"

definition effective :: "SshHost \<Rightarrow> SshHost" where
  "effective h = h\<lparr>hostname := nonempty (hostname h), user := nonempty (user h),
     port := nonempty (port h), identity_file := nonempty (identity_file h)\<rparr>"

definition Server01 :: SshHost where
  "Server01 = \<lparr>name = ''Server01'', hostname = Some ''1.2.3.4'', user = Some ''alice'',
     port = Some ''2222'', identity_file = Some ''/home/alice/.ssh/id_rsa''\<rparr>"

definition Server02 :: SshHost where
  "Server02 = \<lparr>name = ''Server02'', hostname = Some ''example.com'', user = None,
     port = None, identity_file = None\<rparr>"

section \<open>Characters and the string methods the parser uses\<close>

text \<open>
  Python's tables restricted to the code points below 256: \<open>str.isspace\<close> (also what
  \<open>\s\<close> matches, and what \<open>strip()\<close> and \<open>split()\<close> remove), the characters \<open>\w\<close>
  matches, and \<open>str.lower\<close>.
\<close>

abbreviation NL :: char where
  "NL \<equiv> CHR 0x0A"

definition is_space :: "char \<Rightarrow> bool" where
  "is_space c = ((of_char c :: nat) \<in> {9, 10, 11, 12, 13, 28, 29, 30, 31, 32, 133, 160})"

definition is_word :: "char \<Rightarrow> bool" where
  "is_word c =
     (let n = (of_char c :: nat) in
        (48 \<le> n \<and> n \<le> 57) \<or> (65 \<le> n \<and> n \<le> 90) \<or> n = 95 \<or> (97 \<le> n \<and> n \<le> 122)
        \<or> n = 170 \<or> n = 178 \<or> n = 179 \<or> n = 181 \<or> n = 185 \<or> n = 186
        \<or> (188 \<le> n \<and> n \<le> 190) \<or> (192 \<le> n \<and> n \<le> 214)
        \<or> (216 \<le> n \<and> n \<le> 246) \<or> (248 \<le> n \<and> n \<le> 255))"

definition lower_char :: "char \<Rightarrow> char" where
  "lower_char c =
     (let n = (of_char c :: nat) in
        if (65 \<le> n \<and> n \<le> 90) \<or> (192 \<le> n \<and> n \<le> 214) \<or> (216 \<le> n \<and> n \<le> 222)
        then char_of (n + 32) else c)"

definition lower :: "string \<Rightarrow> string" where
  "lower s = map lower_char s"

text \<open>\<open>s.strip(chars)\<close>, with the characters given as a predicate.\<close>

definition strip_chars :: "(char \<Rightarrow> bool) \<Rightarrow> string \<Rightarrow> string" where
  "strip_chars P s = rev (dropWhile P (rev (dropWhile P s)))"

definition strip :: "string \<Rightarrow> string" where
  "strip s = strip_chars is_space s"

definition strip_nl :: "string \<Rightarrow> string" where
  "strip_nl s = strip_chars (\<lambda>c. c = NL) s"

text \<open>\<open>s.split()\<close>: the maximal runs of characters that are not whitespace.\<close>

fun split_acc :: "string \<Rightarrow> string \<Rightarrow> string list" where
  "split_acc cur [] = (if cur = [] then [] else [rev cur])"
| "split_acc cur (c # cs) =
     (if is_space c then (if cur = [] then split_acc [] cs else rev cur # split_acc [] cs)
      else split_acc (c # cur) cs)"

definition split :: "string \<Rightarrow> string list" where
  "split s = split_acc [] s"

definition startswith :: "string \<Rightarrow> string \<Rightarrow> bool" where
  "startswith s pre = (take (length pre) s = pre)"

section \<open>The two regular expressions\<close>

text \<open>
  \<open>.+$\<close> at a position of the line: \<open>.\<close> matches everything but a newline, and \<open>$\<close>
  holds at the end of the line or before a newline that ends it.  The greedy \<open>.+\<close> takes
  the whole run of characters other than newline; giving characters back cannot help,
  since \<open>$\<close> would then stand before a character that is no newline.
\<close>

definition dot_plus_end :: "string \<Rightarrow> string option" where
  "dot_plus_end s =
     (let g = takeWhile (\<lambda>c. c \<noteq> NL) s; t = dropWhile (\<lambda>c. c \<noteq> NL) s
      in if g \<noteq> [] \<and> (t = [] \<or> t = [NL]) then Some g else None)"

text \<open>
  \<open>\s+(.+)$\<close>: the greedy \<open>\s+\<close> first takes the whole run of whitespace and backs off
  one character at a time, down to one, until the remainder matches.
\<close>

fun space_backoff :: "nat \<Rightarrow> string \<Rightarrow> string option" where
  "space_backoff 0 r = None"
| "space_backoff (Suc k) r =
     (case dot_plus_end (drop (Suc k) r) of
        Some g \<Rightarrow> Some g
      | None \<Rightarrow> space_backoff k r)"

definition space_plus_rest :: "string \<Rightarrow> string option" where
  "space_plus_rest r = space_backoff (length (takeWhile is_space r)) r"

text \<open>
  \<open>HOST_LINE_RE.match(line)\<close> for \<open>^Host\s+(?P<patterns>.+)$\<close> with \<open>re.IGNORECASE\<close>:
  the group \<open>patterns\<close>, or \<open>None\<close>.
\<close>

definition HOST_LINE_RE :: "string \<Rightarrow> string option" where
  "HOST_LINE_RE line =
     (if 4 \<le> length line \<and> lower (take 4 line) = ''host''
      then space_plus_rest (drop 4 line) else None)"

text \<open>
  \<open>KV_RE.match(s)\<close> for \<open>^(?P<key>\w+)\s+(?P<value>.+)$\<close>: the groups \<open>key\<close> and
  \<open>value\<close>.  The key is the whole leading run of word characters: a shorter key would be
  followed by a word character, which \<open>\s\<close> does not match.
\<close>

definition KV_RE :: "string \<Rightarrow> (string \<times> string) option" where
  "KV_RE s =
     (let k = takeWhile is_word s in
        if k = [] then None
        else (case space_plus_rest (dropWhile is_word s) of
                None \<Rightarrow> None
              | Some v \<Rightarrow> Some (k, v)))"

definition SUPPORTED_KEYS :: "string set" where
  "SUPPORTED_KEYS = {''hostname'', ''user'', ''port'', ''identityfile''}"

section \<open>\<open>parse_ssh_config\<close>\<close>

text \<open>
  The three variables the nested \<open>flush\<close> shares with the loop.  \<open>current_block\<close> is the
  dict of the directives stored so far.
\<close>

record parser =
  hosts :: "SshHost list"
  current_names :: "string list"
  current_block :: "string \<rightharpoonup> string"

text \<open>The \<open>for hn in current_names\<close> loop of \<open>flush\<close>.\<close>

fun flush_names :: "(string \<rightharpoonup> string) \<Rightarrow> string list \<Rightarrow> SshHost list \<Rightarrow> SshHost list" where
  "flush_names blk [] hs = hs"
| "flush_names blk (hn # hns) hs =
     (if CHR ''*'' \<in> set hn \<or> CHR ''?'' \<in> set hn then flush_names blk hns hs
      else flush_names blk hns
             (hs @ [\<lparr>name = hn, hostname = blk ''hostname'', user = blk ''user'',
                     port = blk ''port'', identity_file = blk ''identityfile''\<rparr>]))"

definition flush :: "parser \<Rightarrow> parser" where
  "flush st =
     (if current_names st = [] then st
      else \<lparr>hosts = flush_names (current_block st) (current_names st) (hosts st),
             current_names = [], current_block = Map.empty\<rparr>)"

text \<open>The body of \<open>for raw in f\<close>.\<close>

definition parse_line :: "parser \<Rightarrow> string \<Rightarrow> parser" where
  "parse_line st raw =
     (let line = strip_nl raw in
        if strip line = [] \<or> startswith (strip line) ''#'' then st
        else (case HOST_LINE_RE line of
                Some patterns \<Rightarrow> (flush st)\<lparr>current_names := split patterns\<rparr>
              | None \<Rightarrow>
                  (case KV_RE (strip line) of
                     Some (k, v) \<Rightarrow>
                       (let key = lower k; val = strip v in
                          if key \<in> SUPPORTED_KEYS
                          then st\<lparr>current_block := (current_block st)(key \<mapsto> val)\<rparr>
                          else st)
                   | None \<Rightarrow> st)))"

text \<open>
  \<open>parse_ssh_config\<close> on a file that opens, given as the lines the iteration over the
  file yields (each with its line end, if it has one).
\<close>

definition parse_ssh_config :: "string list \<Rightarrow> SshHost list" where
  "parse_ssh_config raws =
     hosts (flush (foldl parse_line \<lparr>hosts = [], current_names = [], current_block = Map.empty\<rparr> raws))"

section \<open>Profiles\<close>

text \<open>\<open>d.get(k)\<close> on the items of a dict: the value, or \<open>None\<close>.\<close>

definition dict_get :: "(string \<times> json) list \<Rightarrow> string \<Rightarrow> json" where
  "dict_get items k = (case map_of items k of None \<Rightarrow> JNull | Some v \<Rightarrow> v)"

text \<open>\<open>isinstance(p, dict)\<close>, \<open>isinstance(v, str)\<close>.\<close>

fun is_dict :: "json \<Rightarrow> bool" where
  "is_dict (JDict items) = True"
| "is_dict _ = False"

fun is_str :: "json \<Rightarrow> bool" where
  "is_str (JStr s) = True"
| "is_str _ = False"

text \<open>
  Python's truth value: \<open>None\<close>, \<open>False\<close>, zero (of a float: both zeros) and the empty
  string, list and dict are false.
\<close>

fun truthy :: "json \<Rightarrow> bool" where
  "truthy JNull = False"
| "truthy (JBool b) = b"
| "truthy (JInt i) = (i \<noteq> 0)"
| "truthy (JFloat w) = (w \<noteq> 0 \<and> w \<noteq> 0x8000000000000000)"
| "truthy (JStr s) = (s \<noteq> [])"
| "truthy (JList xs) = (xs \<noteq> [])"
| "truthy (JDict items) = (items \<noteq> [])"

text \<open>A list or a dict has no hash: as a dict key or in a set test it raises \<open>TypeError\<close>.\<close>

fun hashable :: "json \<Rightarrow> bool" where
  "hashable (JList xs) = False"
| "hashable (JDict items) = False"
| "hashable _ = True"

text \<open>
  What a call that updates the list in place leaves behind: it returns, or it raises,
  and either way the caller's list is as given here.
\<close>

datatype outcome = Returns "json list" | Raises exn "json list"

fun final :: "outcome \<Rightarrow> json list" where
  "final (Returns xs) = xs"
| "final (Raises e xs) = xs"

section \<open>\<open>SshHost.guid\<close>\<close>

text \<open>
  \<open>uuid.uuid5\<close> belongs to the standard library.  The functions below take it as the
  parameter \<open>uuid5\<close>: the name to \<open>str(uuid.uuid5(ns, name))\<close> for the fixed namespace
  \<open>ns\<close>, or the exception it raises (it encodes the name as UTF-8, which fails on a
  lone surrogate).
\<close>

type_synonym uuid5_fn = "string \<Rightarrow> exn + string"

definition guid :: "uuid5_fn \<Rightarrow> SshHost \<Rightarrow> exn + string" where
  "guid uuid5 h = uuid5 (''ssh-to-terminal:'' @ name h)"

section \<open>\<open>upsert_profiles\<close>\<close>

text \<open>
  The dict comprehension \<open>by_name\<close>, entry by entry.  The dict is only ever asked for a
  \<open>str\<close>, which equals no key of another type, so keys are compared as values.
\<close>

fun by_name_from :: "nat \<Rightarrow> json list \<Rightarrow> (json \<rightharpoonup> nat) \<Rightarrow> exn + (json \<rightharpoonup> nat)" where
  "by_name_from i [] m = Inr m"
| "by_name_from i (JDict items # ps) m =
     (if truthy (dict_get items ''name'')
      then (if hashable (dict_get items ''name'')
            then by_name_from (Suc i) ps (m(dict_get items ''name'' \<mapsto> i))
            else Inl TypeError)
      else by_name_from (Suc i) ps m)"
| "by_name_from i (p # ps) m = by_name_from (Suc i) ps m"

definition by_name :: "json list \<Rightarrow> exn + (json \<rightharpoonup> nat)" where
  "by_name profiles = by_name_from 0 profiles Map.empty"

text \<open>The dict literal \<open>profile\<close> of the loop body.\<close>

definition profile :: "uuid5_fn \<Rightarrow> SshHost \<Rightarrow> exn + json" where
  "profile uuid5 host =
     (case guid uuid5 host of
        Inl e \<Rightarrow> Inl e
      | Inr g \<Rightarrow>
          Inr (JDict [(''name'', JStr (name host)),
                      (''commandline'', JStr (commandline host)),
                      (''guid'', JStr (''{'' @ g @ ''}'')),
                      (''hidden'', JBool False)]))"

text \<open>The loop \<open>for host in ssh_hosts\<close>.\<close>

fun upsert_loop :: "uuid5_fn \<Rightarrow> (json \<rightharpoonup> nat) \<Rightarrow> json list \<Rightarrow> SshHost list \<Rightarrow> outcome" where
  "upsert_loop uuid5 bn profiles [] = Returns profiles"
| "upsert_loop uuid5 bn profiles (host # rest) =
     (case profile uuid5 host of
        Inl e \<Rightarrow> Raises e profiles
      | Inr pr \<Rightarrow>
          (case bn (JStr (name host)) of
             Some i \<Rightarrow>
               (if i < length profiles then upsert_loop uuid5 bn (profiles[i := pr]) rest
                else Raises IndexError profiles)
           | None \<Rightarrow> upsert_loop uuid5 bn (profiles @ [pr]) rest))"

definition upsert_profiles :: "uuid5_fn \<Rightarrow> json list \<Rightarrow> SshHost list \<Rightarrow> outcome" where
  "upsert_profiles uuid5 profiles ssh_hosts =
     (case by_name profiles of
        Inl e \<Rightarrow> Raises e profiles
      | Inr bn \<Rightarrow> upsert_loop uuid5 bn profiles ssh_hosts)"

section \<open>\<open>remove_profiles\<close>\<close>

text \<open>\<open>n in names\<close> for a hashable \<open>n\<close> and a set of \<open>str\<close>.\<close>

fun in_names :: "json \<Rightarrow> string set \<Rightarrow> bool" where
  "in_names (JStr s) names = (s \<in> names)"
| "in_names _ names = False"

text \<open>
  The test under \<open>if not names\<close>: name and guid are strings, the identity of the name
  is computed without an exception, and the guid is that identity in braces.
\<close>

fun looks_ours :: "uuid5_fn \<Rightarrow> json \<Rightarrow> json \<Rightarrow> bool" where
  "looks_ours uuid5 (JStr n) (JStr g) =
     (case guid uuid5 \<lparr>name = n, hostname = None, user = None, port = None, identity_file = None\<rparr> of
        Inl e \<Rightarrow> False
      | Inr x \<Rightarrow> g = ''{'' @ x @ ''}'')"
| "looks_ours uuid5 n g = False"

text \<open>The loop \<open>for p in profiles\<close>, with \<open>keep\<close> as it grows.\<close>

fun remove_loop :: "uuid5_fn \<Rightarrow> string set \<Rightarrow> json list \<Rightarrow> json list \<Rightarrow> exn + json list" where
  "remove_loop uuid5 names keep [] = Inr keep"
| "remove_loop uuid5 names keep (JDict items # ps) =
     (let n = dict_get items ''name'' in
        if \<not> hashable n then Inl TypeError
        else if in_names n names then remove_loop uuid5 names keep ps
        else if names = {} \<and> looks_ours uuid5 n (dict_get items ''guid'')
             then remove_loop uuid5 names keep ps
        else remove_loop uuid5 names (keep @ [JDict items]) ps)"
| "remove_loop uuid5 names keep (p # ps) = remove_loop uuid5 names (keep @ [p]) ps"

definition remove_profiles :: "uuid5_fn \<Rightarrow> json list \<Rightarrow> SshHost list \<Rightarrow> outcome" where
  "remove_profiles uuid5 profiles ssh_hosts =
     (let names = set (map name ssh_hosts) in
        case remove_loop uuid5 names [] profiles of
          Inl e \<Rightarrow> Raises e profiles
        | Inr keep \<Rightarrow> Returns keep)"

section \<open>\<open>uuid.uuid5\<close>\<close>

text \<open>
  The standard library's \<open>uuid5\<close> (RFC 4122, version 5): the SHA-1 digest of the
  namespace's 16 bytes followed by the UTF-8 bytes of the name, cut to 16 bytes, with
  the version and variant bits set, printed as 8-4-4-4-12 hexadecimal digits.  A
  \<open>string\<close> holds code points below 256 only, so the encoding never fails here.
\<close>

type_synonym u32 = "32 word"
type_synonym byte = "8 word"
type_synonym sha1_state = "u32 \<times> u32 \<times> u32 \<times> u32 \<times> u32"

definition rotl :: "nat \<Rightarrow> u32 \<Rightarrow> u32" where
  "rotl n w = (push_bit n w) OR (drop_bit (32 - n) w)"

definition be_word :: "byte list \<Rightarrow> u32" where
  "be_word bs = foldl (\<lambda>acc b. push_bit 8 acc OR ucast b) 0 bs"

fun words_of :: "byte list \<Rightarrow> u32 list" where
  "words_of (a # b # c # d # bs) = be_word [a, b, c, d] # words_of bs"
| "words_of bs = []"

fun be_bytes :: "nat \<Rightarrow> nat \<Rightarrow> byte list" where
  "be_bytes 0 v = []"
| "be_bytes (Suc k) v = be_bytes k (v div 256) @ [of_nat (v mod 256)]"

definition sha1_pad :: "byte list \<Rightarrow> byte list" where
  "sha1_pad m =
     m @ [0x80] @ replicate ((119 - length m mod 64) mod 64) 0 @ be_bytes 8 (8 * length m)"

fun blocks :: "byte list \<Rightarrow> byte list list" where
  "blocks [] = []"
| "blocks (b # bs) = take 64 (b # bs) # blocks (drop 63 bs)"

definition f_ch :: "u32 \<Rightarrow> u32 \<Rightarrow> u32 \<Rightarrow> u32" where
  "f_ch b c d = (b AND c) OR (NOT b AND d)"

definition f_parity :: "u32 \<Rightarrow> u32 \<Rightarrow> u32 \<Rightarrow> u32" where
  "f_parity b c d = b XOR c XOR d"

definition f_maj :: "u32 \<Rightarrow> u32 \<Rightarrow> u32 \<Rightarrow> u32" where
  "f_maj b c d = (b AND c) OR (b AND d) OR (c AND d)"

text \<open>
  \<open>n\<close> rounds with one round function and constant.  The message schedule is kept as a
  window of sixteen words: the head is the word of this round, and the word sixteen
  rounds ahead is appended.
\<close>

fun rounds :: "nat \<Rightarrow> (u32 \<Rightarrow> u32 \<Rightarrow> u32 \<Rightarrow> u32) \<Rightarrow> u32 \<Rightarrow> u32 list \<times> sha1_state \<Rightarrow> u32 list \<times> sha1_state" where
  "rounds 0 f k s = s"
| "rounds (Suc n) f k (win, a, b, c, d, e) =
     rounds n f k
       (tl win @ [rotl 1 (win ! 13 XOR win ! 8 XOR win ! 2 XOR win ! 0)],
        rotl 5 a + f b c d + e + k + hd win, a, rotl 30 b, c, d)"

definition compress :: "sha1_state \<Rightarrow> byte list \<Rightarrow> sha1_state" where
  "compress h blk =
     (case h of (h0, h1, h2, h3, h4) \<Rightarrow>
        (case rounds 20 f_parity 0xCA62C1D6 (rounds 20 f_maj 0x8F1BBCDC
                (rounds 20 f_parity 0x6ED9EBA1 (rounds 20 f_ch 0x5A827999 (words_of blk, h)))) of
           (win, a, b, c, d, e) \<Rightarrow> (h0 + a, h1 + b, h2 + c, h3 + d, h4 + e)))"

definition digest :: "sha1_state \<Rightarrow> byte list" where
  "digest h =
     (case h of (a, b, c, d, e) \<Rightarrow>
        concat (map (\<lambda>w. [ucast (drop_bit 24 w), ucast (drop_bit 16 w), ucast (drop_bit 8 w), ucast w])
                  [a, b, c, d, e]))"

definition sha1 :: "byte list \<Rightarrow> byte list" where
  "sha1 m =
     digest (foldl compress (0x67452301, 0xEFCDAB89, 0x98BADCFE, 0x10325476, 0xC3D2E1F0)
               (blocks (sha1_pad m)))"

definition utf8 :: "string \<Rightarrow> byte list" where
  "utf8 s =
     concat (map (\<lambda>c. let b = (of_char c :: byte) in
                         if b < 0x80 then [b] else [0xC0 OR drop_bit 6 b, 0x80 OR (b AND 0x3F)]) s)"

definition hex :: "byte list \<Rightarrow> string" where
  "hex bs =
     concat (map (\<lambda>b. [''0123456789abcdef'' ! unat (drop_bit 4 b),
                         ''0123456789abcdef'' ! unat (b AND 0x0F)]) bs)"

text \<open>The namespace of \<open>SshHost.guid\<close>: \<open>12345678-1234-5678-1234-567812345678\<close>.\<close>

definition NAMESPACE :: "byte list" where
  "NAMESPACE = [0x12, 0x34, 0x56, 0x78, 0x12, 0x34, 0x56, 0x78,
                0x12, 0x34, 0x56, 0x78, 0x12, 0x34, 0x56, 0x78]"

definition uuid_str :: "byte list \<Rightarrow> string" where
  "uuid_str h =
     (let h = h[6 := (h ! 6 AND 0x0F) OR 0x50, 8 := (h ! 8 AND 0x3F) OR 0x80]
      in hex (take 4 h) @ ''-'' @ hex (take 2 (drop 4 h)) @ ''-'' @ hex (take 2 (drop 6 h))
         @ ''-'' @ hex (take 2 (drop 8 h)) @ ''-'' @ hex (drop 10 h))"

definition uuid5_str :: "string \<Rightarrow> string" where
  "uuid5_str nm = uuid_str (take 16 (sha1 (NAMESPACE @ utf8 nm)))"

definition uuid5_lib :: uuid5_fn where
  "uuid5_lib nm = Inr (uuid5_str nm)"

section \<open>\<open>main\<close>\<close>

text \<open>
  The namespace \<open>parse_args\<close> returns, and the world \<open>main\<close> acts on: the files by
  path (a file is the lines reading it yields, or it cannot be read) and the messages
  logged so far, each with its level.
\<close>

record args =
  debug :: bool
  ssh_dir :: string
  nosubdir :: bool
  terminal :: "string option"
  add :: bool
  remove :: bool
  exclude :: "string list"

datatype content = Text "string list" | Unreadable

record world =
  files :: "string \<rightharpoonup> content"
  logged :: "(string \<times> string) list"

text \<open>
  What the surrounding libraries do is a parameter of the model: \<open>argparse\<close> (which
  exits with a status on \<open>--help\<close> or a bad argument), the resolution of paths, the
  listing of a directory, and the JSON codec.  A path is the string \<open>str\<close> gives for
  it: \<open>lib_path s\<close> is \<open>str(Path(s))\<close>, the string as \<open>pathlib\<close> normalises it,
  \<open>lib_name p\<close> is \<open>p.name\<close>, and \<open>lib_basename\<close> is \<open>os.path.basename\<close>.
\<close>

record env =
  lib_uuid5 :: uuid5_fn
  lib_parse_args :: "string list \<Rightarrow> int + args"
  lib_expanduser :: "string \<Rightarrow> string"
  lib_path :: "string \<Rightarrow> string"
  lib_name :: "string \<Rightarrow> string"
  lib_basename :: "string \<Rightarrow> string"
  lib_default_settings_path :: "world \<Rightarrow> string"
  lib_listing :: "world \<Rightarrow> string \<Rightarrow> bool \<Rightarrow> string list"
  lib_json_load :: "string list \<Rightarrow> exn + json"
  lib_json_dump :: "json \<Rightarrow> string list"

text \<open>How a run ends: \<open>main\<close> returns a status (or \<open>argparse\<close> exits with one), or an exception escapes.\<close>

datatype ending = Exit int | Uncaught exn

text \<open>
  \<open>logging\<close> at the level \<open>basicConfig\<close> sets: a debug message is dropped unless
  \<open>--debug\<close> was given.
\<close>

definition emit :: "args \<Rightarrow> string \<Rightarrow> string \<Rightarrow> world \<Rightarrow> world" where
  "emit a level msg w =
     (if level = ''DEBUG'' \<and> \<not> debug a then w else w\<lparr>logged := logged w @ [(level, msg)]\<rparr>)"

text \<open>\<open>str(n)\<close> of a length, for the messages.\<close>

fun str_nat :: "nat \<Rightarrow> string" where
  "str_nat n =
     (if n < 10 then [char_of (48 + n)] else str_nat (n div 10) @ [char_of (48 + n mod 10)])"

definition str_bool :: "bool \<Rightarrow> string" where
  "str_bool b = (if b then ''True'' else ''False'')"

text \<open>\<open>looks_like_ssh_config\<close>: some line, without its newlines at the end, is a \<open>Host\<close> line.\<close>

definition rstrip_nl :: "string \<Rightarrow> string" where
  "rstrip_nl s = rev (dropWhile (\<lambda>c. c = NL) (rev s))"

definition looks_like_ssh_config :: "world \<Rightarrow> string \<Rightarrow> bool" where
  "looks_like_ssh_config w path =
     (case files w path of
        Some (Text raws) \<Rightarrow> list_ex (\<lambda>line. HOST_LINE_RE (rstrip_nl line) \<noteq> None) raws
      | _ \<Rightarrow> False)"

text \<open>
  \<open>discover_ssh_config_files\<close>.  \<open>lib_listing\<close> gives the regular files \<open>rglob("*")\<close>
  (or, of an existing directory, \<open>iterdir()\<close>) yields, in its order.
\<close>

definition discover_ssh_config_files :: "env \<Rightarrow> world \<Rightarrow> string \<Rightarrow> bool \<Rightarrow> string list \<Rightarrow> string list" where
  "discover_ssh_config_files ev w ssh include_subdirs excludes =
     (let exclude_names = set (map (lib_basename ev) excludes)
      in filter (\<lambda>p. lib_name ev p \<notin> exclude_names \<and> looks_like_ssh_config w p)
           (lib_listing ev w ssh include_subdirs))"

text \<open>
  The loop \<open>for f in files\<close> of \<open>main\<close>: a file that cannot be parsed is a warning
  (the text of the exception, which ends the message, is left out).
\<close>

fun parse_all :: "args \<Rightarrow> string list \<Rightarrow> SshHost list \<Rightarrow> world \<Rightarrow> SshHost list \<times> world" where
  "parse_all a [] all_hosts w = (all_hosts, w)"
| "parse_all a (f # fs) all_hosts w =
     (case files w f of
        Some (Text raws) \<Rightarrow>
          (let hs = parse_ssh_config raws
           in parse_all a fs (all_hosts @ hs)
                (emit a ''DEBUG'' (f @ '': parsed '' @ str_nat (length hs) @ '' host(s)'') w))
      | _ \<Rightarrow> parse_all a fs all_hosts (emit a ''WARNING'' (''Failed to parse '' @ f) w))"

definition load_settings :: "env \<Rightarrow> world \<Rightarrow> string \<Rightarrow> exn + json" where
  "load_settings ev w settings_path =
     (case files w settings_path of
        Some (Text raws) \<Rightarrow> lib_json_load ev raws
      | Some Unreadable \<Rightarrow> Inl OSError
      | None \<Rightarrow>
          Inr (JDict [(''$schema'', JStr ''https://aka.ms/terminal-profiles-schema''),
                      (''profiles'', JDict [(''defaults'', JDict []), (''list'', JList [])]),
                      (''actions'', JList []), (''schemes'', JList []), (''themes'', JList [])]))"

text \<open>\<open>d[k] = v\<close> on the items of a dict: in place if the key is there, else at the end.\<close>

fun dict_set :: "(string \<times> json) list \<Rightarrow> string \<Rightarrow> json \<Rightarrow> (string \<times> json) list" where
  "dict_set [] k v = [(k, v)]"
| "dict_set ((k', v') # items) k v =
     (if k' = k then (k, v) # items else (k', v') # dict_set items k v)"

text \<open>
  \<open>ensure_profiles_container\<close>: the document with \<open>profiles\<close> a dict and
  \<open>profiles.list\<close> a list, and that list.  A document that is no dict has no \<open>get\<close>.
\<close>

definition ensure_profiles_container :: "json \<Rightarrow> exn + (json \<times> json list)" where
  "ensure_profiles_container data =
     (case data of
        JDict items \<Rightarrow>
          (let prof = (case dict_get items ''profiles'' of JDict p \<Rightarrow> p | _ \<Rightarrow> []);
               lst = (case dict_get prof ''list'' of JList l \<Rightarrow> l | _ \<Rightarrow> [])
           in Inr (JDict (dict_set items ''profiles'' (JDict (dict_set prof ''list'' (JList lst)))), lst))
      | _ \<Rightarrow> Inl AttributeError)"

text \<open>The document once the list inside it, which the two operations update in place, is \<open>lst\<close>.\<close>

definition with_list :: "json \<Rightarrow> json list \<Rightarrow> json" where
  "with_list data lst =
     (case data of
        JDict items \<Rightarrow>
          (case dict_get items ''profiles'' of
             JDict prof \<Rightarrow> JDict (dict_set items ''profiles'' (JDict (dict_set prof ''list'' (JList lst))))
           | _ \<Rightarrow> data)
      | _ \<Rightarrow> data)"

text \<open>
  \<open>save_settings\<close>: the validation is best effort and changes nothing; the document is
  written to the path.
\<close>

definition save_settings :: "env \<Rightarrow> string \<Rightarrow> json \<Rightarrow> world \<Rightarrow> world" where
  "save_settings ev settings_path data w =
     w\<lparr>files := (files w)(settings_path \<mapsto> Text (lib_json_dump ev data))\<rparr>"

text \<open>The part of \<open>main\<close> after the test of the action flags.\<close>

definition reconcile :: "env \<Rightarrow> args \<Rightarrow> world \<Rightarrow> ending \<times> world" where
  "reconcile ev a w =
     (let ssh = lib_path ev (lib_expanduser ev (ssh_dir a));
          include_subdirs = \<not> nosubdir a;
          settings_path = (if truthy_opt (terminal a) then lib_path ev (the (terminal a))
                           else lib_default_settings_path ev w);
          w = emit a ''DEBUG'' (''Scanning SSH dir: '' @ ssh @ '' (recursive=''
                @ str_bool include_subdirs @ '')'') w;
          found = discover_ssh_config_files ev w ssh include_subdirs (exclude a);
          w = emit a ''INFO'' (''Found '' @ str_nat (length found) @ '' SSH config file(s)'') w;
          (all_hosts, w) = parse_all a found [] w
      in case load_settings ev w settings_path of
           Inl e \<Rightarrow> (Uncaught e, w)
         | Inr settings \<Rightarrow>
             (case ensure_profiles_container settings of
                Inl e \<Rightarrow> (Uncaught e, w)
              | Inr (data, profiles) \<Rightarrow>
                  (case (if remove a then remove_profiles (lib_uuid5 ev) profiles all_hosts
                         else Returns profiles) of
                     Raises e l \<Rightarrow> (Uncaught e, w)
                   | Returns profiles \<Rightarrow>
                       (let w = (if remove a then emit a ''INFO'' ''Removal complete'' w else w)
                        in case (if add a then upsert_profiles (lib_uuid5 ev) profiles all_hosts
                                 else Returns profiles) of
                             Raises e l \<Rightarrow> (Uncaught e, w)
                           | Returns profiles \<Rightarrow>
                               (let w = (if add a then emit a ''INFO'' ''Add/update complete'' w else w);
                                    w = save_settings ev settings_path (with_list data profiles) w;
                                    w = emit a ''INFO'' (''Saved settings to '' @ settings_path) w
                                in (Exit 0, w))))))"

definition main :: "env \<Rightarrow> string list \<Rightarrow> world \<Rightarrow> ending \<times> world" where
  "main ev argv w =
     (case lib_parse_args ev argv of
        Inl status \<Rightarrow> (Exit status, w)
      | Inr a \<Rightarrow>
          if \<not> add a \<and> \<not> remove a
          then (Exit 2, emit a ''ERROR'' ''No action specified. Use --add and/or --remove.'' w)
          else reconcile ev a w)"

text \<open>
  An environment and a world for the closed examples.  Its paths are absolute and
  already as \<open>pathlib\<close> writes them, so that normalising them changes nothing.
\<close>

definition sample_args :: "bool \<Rightarrow> bool \<Rightarrow> args" where
  "sample_args ad rm = \<lparr>debug = False, ssh_dir = ''/home/u/.ssh'', nosubdir = False,
     terminal = Some ''/tmp/settings.json'', add = ad, remove = rm, exclude = []\<rparr>"

definition sample_env :: "bool \<Rightarrow> bool \<Rightarrow> env" where
  "sample_env ad rm = \<lparr>lib_uuid5 = uuid5_lib,
     lib_parse_args = (\<lambda>argv. Inr (sample_args ad rm)),
     lib_expanduser = (\<lambda>p. p),
     lib_path = (\<lambda>p. p),
     lib_name = (\<lambda>p. rev (takeWhile (\<lambda>c. c \<noteq> CHR ''/'') (rev p))),
     lib_basename = (\<lambda>p. rev (takeWhile (\<lambda>c. c \<noteq> CHR ''/'') (rev p))),
     lib_default_settings_path = (\<lambda>w. ''/mnt/c/settings.json''),
     lib_listing = (\<lambda>w d r. [''/home/u/.ssh/config'']),
     lib_json_load = (\<lambda>raws. Inl JSONDecodeError),
     lib_json_dump = (\<lambda>j. [''<json>''])\<rparr>"

definition sample_config :: "string list" where
  "sample_config = [''Host A'' @ [NL], ''  HostName a.example'']"

definition sample_world :: world where
  "sample_world = \<lparr>files = [''/home/u/.ssh/config'' \<mapsto> Text sample_config], logged = []\<rparr>"

section \<open>Notions for the statements and the proofs\<close>

text \<open>An entry is named \<open>n\<close>: it is a dict whose \<open>name\<close> is the string \<open>n\<close>.\<close>

definition named :: "string \<Rightarrow> json \<Rightarrow> bool" where
  "named n p = (case p of JDict items \<Rightarrow> dict_get items ''name'' = JStr n | _ \<Rightarrow> False)"

definition count_named :: "string \<Rightarrow> json list \<Rightarrow> nat" where
  "count_named n L = length (filter (named n) L)"

text \<open>The name of an entry is one of a set of host names.\<close>

fun name_in :: "string set \<Rightarrow> json \<Rightarrow> bool" where
  "name_in N (JDict items) = in_names (dict_get items ''name'') N"
| "name_in N p = False"

text \<open>
  A tool-owned profile: a dict whose \<open>guid\<close> is the braced identity of its own \<open>name\<close>,
  both strings.
\<close>

fun tool_owned :: "uuid5_fn \<Rightarrow> json \<Rightarrow> bool" where
  "tool_owned u (JDict items) = looks_ours u (dict_get items ''name'') (dict_get items ''guid'')"
| "tool_owned u p = False"

text \<open>A dict with string \<open>name\<close> and \<open>guid\<close> for whose name the identity cannot be computed.\<close>

fun identity_raises :: "uuid5_fn \<Rightarrow> json \<Rightarrow> bool" where
  "identity_raises u (JDict items) =
     (case (dict_get items ''name'', dict_get items ''guid'') of
        (JStr n, JStr g) \<Rightarrow>
          isl (guid u \<lparr>name = n, hostname = None, user = None, port = None, identity_file = None\<rparr>)
      | _ \<Rightarrow> False)"
| "identity_raises u p = False"

text \<open>A dict whose \<open>name\<close> is a list or a dict.\<close>

fun unhashable_name :: "json \<Rightarrow> bool" where
  "unhashable_name (JDict items) = (\<not> hashable (dict_get items ''name''))"
| "unhashable_name p = False"

text \<open>The key under which \<open>by_name\<close> files an entry, if it files it.\<close>

fun key_of :: "json \<Rightarrow> json option" where
  "key_of (JDict items) =
     (if truthy (dict_get items ''name'') then Some (dict_get items ''name'') else None)"
| "key_of _ = None"

text \<open>\<open>by_name\<close> on the keys alone.\<close>

fun index_keys :: "nat \<Rightarrow> json option list \<Rightarrow> (json \<rightharpoonup> nat) \<Rightarrow> exn + (json \<rightharpoonup> nat)" where
  "index_keys i [] m = Inr m"
| "index_keys i (None # ks) m = index_keys (Suc i) ks m"
| "index_keys i (Some k # ks) m =
     (if hashable k then index_keys (Suc i) ks (m(k \<mapsto> i)) else Inl TypeError)"

text \<open>The index of a list as it stands extends the index \<open>bn\<close> taken at the start.\<close>

definition agrees :: "(json \<rightharpoonup> nat) \<Rightarrow> json list \<Rightarrow> bool" where
  "agrees bn L = (\<exists>m. by_name L = Inr m \<and> (\<forall>k i. bn k = Some i \<longrightarrow> m k = Some i))"

text \<open>The profile of the last host of a given name.\<close>

fun last_profile :: "uuid5_fn \<Rightarrow> SshHost list \<Rightarrow> string \<Rightarrow> json option" where
  "last_profile u [] n = None"
| "last_profile u (h # hs) n =
     (case last_profile u hs n of
        Some p \<Rightarrow> Some p
      | None \<Rightarrow>
          (if name h = n then (case profile u h of Inr pr \<Rightarrow> Some pr | Inl e \<Rightarrow> None) else None))"

text \<open>
  After the hosts \<open>hs\<close>: every profile was built, and the entry the list's index holds
  for a host's name is the profile of the last host of that name.
\<close>

definition placed :: "uuid5_fn \<Rightarrow> SshHost list \<Rightarrow> json list \<Rightarrow> bool" where
  "placed u hs L =
     ((\<forall>h\<in>set hs. \<exists>pr. profile u h = Inr pr) \<and>
      (\<forall>h\<in>set hs. name h \<noteq> [] \<longrightarrow>
         (\<exists>m j. by_name L = Inr m \<and> m (JStr (name h)) = Some j
            \<and> last_profile u hs (name h) = Some (L ! j))))"

text \<open>After the hosts \<open>hs\<close>: how many entries carry each name.\<close>

definition counted :: "json list \<Rightarrow> (json \<rightharpoonup> nat) \<Rightarrow> SshHost list \<Rightarrow> json list \<Rightarrow> bool" where
  "counted P bn hs L =
     (\<forall>n. count_named n L =
        count_named n P + (if bn (JStr n) = None then length (filter (\<lambda>h. name h = n) hs) else 0))"

text \<open>
  A file read as blocks.  \<open>host_patterns\<close> is the patterns group of a line that starts
  a block, \<open>directive\<close> the key and value a line stores, \<open>block_dict\<close> the directives
  of the lines of a block, and \<open>block_records\<close> the records a block stands for: one
  for each pattern without \<open>*\<close> and \<open>?\<close>, with the directives of the block.
\<close>

definition skipped :: "string \<Rightarrow> bool" where
  "skipped raw = (strip (strip_nl raw) = [] \<or> startswith (strip (strip_nl raw)) ''#'')"

definition host_patterns :: "string \<Rightarrow> string option" where
  "host_patterns raw = (if skipped raw then None else HOST_LINE_RE (strip_nl raw))"

definition directive :: "string \<Rightarrow> (string \<times> string) option" where
  "directive raw =
     (if skipped raw then None
      else (case KV_RE (strip (strip_nl raw)) of
              Some (k, v) \<Rightarrow> if lower k \<in> SUPPORTED_KEYS then Some (lower k, strip v) else None
            | None \<Rightarrow> None))"

definition store :: "(string \<rightharpoonup> string) \<Rightarrow> string \<Rightarrow> (string \<rightharpoonup> string)" where
  "store m raw = (case directive raw of Some (k, v) \<Rightarrow> m(k \<mapsto> v) | None \<Rightarrow> m)"

definition block_dict :: "string list \<Rightarrow> (string \<rightharpoonup> string)" where
  "block_dict body = foldl store Map.empty body"

definition records :: "string list \<Rightarrow> (string \<rightharpoonup> string) \<Rightarrow> SshHost list" where
  "records names blk =
     map (\<lambda>hn. \<lparr>name = hn, hostname = blk ''hostname'', user = blk ''user'',
                  port = blk ''port'', identity_file = blk ''identityfile''\<rparr>)
       (filter (\<lambda>hn. CHR ''*'' \<notin> set hn \<and> CHR ''?'' \<notin> set hn) names)"

fun block_records :: "string \<times> string list \<Rightarrow> SshHost list" where
  "block_records (hl, body) =
     (case host_patterns hl of
        Some patterns \<Rightarrow> records (split patterns) (block_dict body)
      | None \<Rightarrow> [])"

text \<open>
  A block as the claim has it: a \<open>Host\<close> line with at least one pattern, and lines
  that start no block.
\<close>

fun proper_block :: "string \<times> string list \<Rightarrow> bool" where
  "proper_block (hl, body) =
     ((case host_patterns hl of Some patterns \<Rightarrow> split patterns \<noteq> [] | None \<Rightarrow> False)
      \<and> list_all (\<lambda>raw. host_patterns raw = None) body)"

text \<open>The inputs of the closed examples.\<close>

definition hostA :: SshHost where
  "hostA = \<lparr>name = ''A'', hostname = Some ''a.example'', user = None, port = None, identity_file = None\<rparr>"

definition profileA :: json where
  "profileA = JDict [(''name'', JStr ''A''), (''commandline'', JStr ''ssh a.example''),
     (''guid'', JStr ''{71ed0aab-b71c-5e1c-805b-2f53b7e84477}''), (''hidden'', JBool False)]"

definition uuid5_raising :: uuid5_fn where
  "uuid5_raising nm = Inl UnicodeEncodeError"

section \<open>Theorems\<close>

text \<open>
  C6 (as amended).  For every host record the derived command line is the space-join
  of \<open>ssh\<close>, then \<open>-p\<close> and the port if the port is present and not empty, then \<open>-i\<close>
  and the identity file if it is present and not empty, then the target: the hostname if
  present and not empty, else the name, prefixed with \<open>user@\<close> if the user is present
  and not empty.  A field that is present but empty counts as absent: the command line
  of a record is the one the stated rule gives for the record with such fields absent,
  and for a record without such fields it is the one the stated rule gives for the
  record itself.
\<close>

theorem commandline_spec:
  "commandline h = spec_commandline (effective h)
   \<and> (hostname h \<noteq> Some [] \<and> user h \<noteq> Some [] \<and> port h \<noteq> Some [] \<and> identity_file h \<noteq> Some []
        \<longrightarrow> commandline h = spec_commandline h)"
  by (cases "hostname h"; cases "user h"; cases "port h"; cases "identity_file h")
     (simp_all add: commandline_def spec_commandline_def effective_def)

text \<open>The two records of the specification, through the theorem.\<close>

theorem commandline_spec_witness:
  "commandline Server01 = ''ssh -p 2222 -i /home/alice/.ssh/id_rsa alice@1.2.3.4''
   \<and> commandline Server02 = ''ssh example.com''"
  using commandline_spec [of Server01] commandline_spec [of Server02]
  by (simp add: Server01_def Server02_def spec_commandline_def effective_def)

text \<open>
  C6 as stated fails: a port that is present but empty is skipped by the truth test
  \<open>if self.port\<close>, where the stated rule appends \<open>-p\<close> and the empty value.
\<close>

theorem commandline_counterexample:
  "commandline \<lparr>name = ''x'', hostname = None, user = None, port = Some [], identity_file = None\<rparr>
     = ''ssh x''
   \<and> spec_commandline \<lparr>name = ''x'', hostname = None, user = None, port = Some [], identity_file = None\<rparr>
     = ''ssh -p  x''
   \<and> commandline \<lparr>name = ''x'', hostname = None, user = None, port = Some [], identity_file = None\<rparr>
     \<noteq> spec_commandline \<lparr>name = ''x'', hostname = None, user = None, port = Some [], identity_file = None\<rparr>"
  by (simp add: commandline_def spec_commandline_def)

section \<open>The parser\<close>

lemma flush_names_eq:
  "flush_names blk ns hs =
     hs @ map (\<lambda>hn. \<lparr>name = hn, hostname = blk ''hostname'', user = blk ''user'',
                       port = blk ''port'', identity_file = blk ''identityfile''\<rparr>)
            (filter (\<lambda>hn. CHR ''*'' \<notin> set hn \<and> CHR ''?'' \<notin> set hn) ns)"
  by (induction ns arbitrary: hs) simp_all

text \<open>
  C7.  A record is to carry the directives of its own block, a field being absent if
  the block never sets it.  \<open>flush\<close> returns before it clears \<open>current_block\<close> when no
  pattern is pending, so a directive that stands before the first \<open>Host\<close> line, or
  after a \<open>Host\<close> line followed by whitespace only, is still in the dict when the
  next block is flushed: below, \<open>a\<close> has the user \<open>bob\<close> though its block sets none (and
  \<open>b\<close>, the next block, has none); and in the second file \<open>b\<close> has the user \<open>bob\<close> set
  before its \<open>Host\<close> line.
\<close>

theorem directive_outside_a_block_reaches_the_next_block:
  "parse_ssh_config [''User bob'' @ [NL], ''Host a'' @ [NL], ''Host b'' @ [NL]] =
       [\<lparr>name = ''a'', hostname = None, user = Some ''bob'', port = None, identity_file = None\<rparr>,
        \<lparr>name = ''b'', hostname = None, user = None, port = None, identity_file = None\<rparr>]
   \<and> parse_ssh_config [''Host a'' @ [NL], ''Host   '' @ [NL], ''User bob'' @ [NL], ''Host b'' @ [NL]] =
       [\<lparr>name = ''a'', hostname = None, user = None, port = None, identity_file = None\<rparr>,
        \<lparr>name = ''b'', hostname = None, user = Some ''bob'', port = None, identity_file = None\<rparr>]"
proof -
  have "parse_ssh_config [''User bob'' @ [NL], ''Host a'' @ [NL], ''Host b'' @ [NL]] =
       [\<lparr>name = ''a'', hostname = None, user = Some ''bob'', port = None, identity_file = None\<rparr>,
        \<lparr>name = ''b'', hostname = None, user = None, port = None, identity_file = None\<rparr>]"
    by code_simp
  moreover
  have "parse_ssh_config [''Host a'' @ [NL], ''Host   '' @ [NL], ''User bob'' @ [NL], ''Host b'' @ [NL]] =
       [\<lparr>name = ''a'', hostname = None, user = None, port = None, identity_file = None\<rparr>,
        \<lparr>name = ''b'', hostname = None, user = Some ''bob'', port = None, identity_file = None\<rparr>]"
    by code_simp
  ultimately show ?thesis ..
qed

lemma parse_line_host:
  "host_patterns raw = Some patterns \<Longrightarrow>
     parse_line st raw = (flush st)\<lparr>current_names := split patterns\<rparr>"
  by (auto simp: parse_line_def host_patterns_def skipped_def Let_def split: if_splits)

lemma parse_line_body:
  "host_patterns raw = None \<Longrightarrow>
     parse_line st raw = st\<lparr>current_block := store (current_block st) raw\<rparr>"
  by (auto simp: parse_line_def host_patterns_def directive_def store_def skipped_def Let_def
      split: if_splits option.splits)

lemma parse_body:
  "list_all (\<lambda>raw. host_patterns raw = None) body \<Longrightarrow>
     foldl parse_line st body = st\<lparr>current_block := foldl store (current_block st) body\<rparr>"
  by (induction body arbitrary: st) (simp_all add: parse_line_body)

lemma flush_hosts: "hosts (flush st) = hosts st @ records (current_names st) (current_block st)"
  by (simp add: flush_def flush_names_eq records_def)

lemma flush_clears:
  "current_names st \<noteq> [] \<or> current_block st = Map.empty \<Longrightarrow>
     current_block (flush st) = Map.empty \<and> current_names (flush st) = []"
  by (auto simp: flush_def)

lemma parse_blocks_from:
  assumes "list_all proper_block blks"
    and "current_names st \<noteq> [] \<or> current_block st = Map.empty"
  shows "hosts (flush (foldl parse_line st (concat (map (\<lambda>(hl, body). hl # body) blks))))
     = hosts st @ records (current_names st) (current_block st) @ concat (map block_records blks)"
  using assms
proof (induction blks arbitrary: st)
  case Nil
  then show ?case by (simp add: flush_hosts)
next
  case (Cons b blks)
  obtain hl body where b: "b = (hl, body)" by (cases b)
  from Cons.prems(1) b obtain patterns where hp: "host_patterns hl = Some patterns"
    and ne: "split patterns \<noteq> []" and body: "list_all (\<lambda>raw. host_patterns raw = None) body"
    by (auto split: option.splits)
  define st1 where "st1 = (flush st)\<lparr>current_names := split patterns\<rparr>"
  define st2 where "st2 = st1\<lparr>current_block := foldl store (current_block st1) body\<rparr>"
  have run: "foldl parse_line st (hl # body) = st2"
    by (simp add: parse_line_host [OF hp] parse_body [OF body] st1_def st2_def)
  from flush_clears [OF Cons.prems(2)] have blk1: "current_block st1 = Map.empty"
    by (simp add: st1_def)
  have st2: "current_names st2 = split patterns" "current_block st2 = block_dict body"
    "hosts st2 = hosts st @ records (current_names st) (current_block st)"
    by (simp_all add: st2_def st1_def blk1 [unfolded st1_def] block_dict_def flush_hosts)
  have "current_names st2 \<noteq> [] \<or> current_block st2 = Map.empty" using st2(1) ne by simp
  from Cons.IH [OF _ this] Cons.prems(1)
  have "hosts (flush (foldl parse_line st2 (concat (map (\<lambda>(hl, body). hl # body) blks))))
     = hosts st2 @ records (current_names st2) (current_block st2) @ concat (map block_records blks)"
    by simp
  then show ?case using run st2 hp by (simp add: b)
qed

text \<open>
  Where every \<open>Host\<close> line has a pattern and no directive stands before the first
  one, the records are those of the blocks, each with the directives of its own block
  and no others.
\<close>

lemma parse_blocks:
  assumes pre: "list_all (\<lambda>raw. host_patterns raw = None \<and> directive raw = None) pre"
    and wf: "list_all proper_block blks"
  shows "parse_ssh_config (pre @ concat (map (\<lambda>(hl, body). hl # body) blks))
     = concat (map block_records blks)"
proof -
  let ?init = "\<lparr>hosts = [], current_names = [], current_block = Map.empty\<rparr>"
  have "foldl parse_line st pre = st" for st
    using pre by (induction pre arbitrary: st) (simp_all add: parse_line_body store_def)
  then show ?thesis
    using parse_blocks_from [OF wf, of ?init]
    by (simp add: parse_ssh_config_def records_def)
qed

lemma parse_blocks_example:
  "parse_ssh_config [''# hosts'' @ [NL], ''Host web1 web2'' @ [NL], ''    User bob'' @ [NL],
                     ''Host * web?'' @ [NL], ''    Port 22'' @ [NL], ''Host db'' @ [NL]] =
     [\<lparr>name = ''web1'', hostname = None, user = Some ''bob'', port = None, identity_file = None\<rparr>,
      \<lparr>name = ''web2'', hostname = None, user = Some ''bob'', port = None, identity_file = None\<rparr>,
      \<lparr>name = ''db'', hostname = None, user = None, port = None, identity_file = None\<rparr>]"
proof -
  let ?pre = "[''# hosts'' @ [NL]]"
  let ?blks = "[(''Host web1 web2'' @ [NL], [''    User bob'' @ [NL]]),
                (''Host * web?'' @ [NL], [''    Port 22'' @ [NL]]),
                (''Host db'' @ [NL], [])]"
  have 1: "list_all (\<lambda>raw. host_patterns raw = None \<and> directive raw = None) ?pre"
    by code_simp
  have 2: "list_all proper_block ?blks"
    by code_simp
  have "concat (map block_records ?blks) =
     [\<lparr>name = ''web1'', hostname = None, user = Some ''bob'', port = None, identity_file = None\<rparr>,
      \<lparr>name = ''web2'', hostname = None, user = Some ''bob'', port = None, identity_file = None\<rparr>,
      \<lparr>name = ''db'', hostname = None, user = None, port = None, identity_file = None\<rparr>]"
    by code_simp
  with parse_blocks [OF 1 2] show ?thesis by simp
qed

lemma lower_char_pre:
  assumes "lower_char c = char_of (m::nat)" and "97 \<le> m" and "m \<le> 122"
  shows "c = char_of m \<or> c = char_of (m - 32)"
proof -
  define n where "n = (of_char c :: nat)"
  have c: "c = char_of n" by (simp add: n_def)
  have nb: "n < 256" unfolding n_def by (metis of_char_mod_256 mod_less_divisor zero_less_numeral)
  show ?thesis
  proof (cases "(65 \<le> n \<and> n \<le> 90) \<or> (192 \<le> n \<and> n \<le> 214) \<or> (216 \<le> n \<and> n \<le> 222)")
    case True
    then have "char_of (n + 32) = (char_of m :: char)"
      using assms(1) by (simp add: lower_char_def n_def)
    then have "(n + 32) mod 256 = m mod 256"
      by (metis of_char_of)
    then have "n + 32 = m" using True assms(2,3) by auto
    then show ?thesis using c by auto
  next
    case False
    then have "lower_char c = c" unfolding lower_char_def Let_def n_def [symmetric] by (meson)
    then show ?thesis using assms(1) by simp
  qed
qed

lemma lower_char_cases:
  "lower_char c = CHR ''h'' \<Longrightarrow> c = CHR ''h'' \<or> c = CHR ''H''"
  "lower_char c = CHR ''o'' \<Longrightarrow> c = CHR ''o'' \<or> c = CHR ''O''"
  "lower_char c = CHR ''s'' \<Longrightarrow> c = CHR ''s'' \<or> c = CHR ''S''"
  "lower_char c = CHR ''t'' \<Longrightarrow> c = CHR ''t'' \<or> c = CHR ''T''"
proof -
  have e: "CHR ''h'' = char_of (104::nat)" "CHR ''H'' = char_of (72::nat)"
    "CHR ''o'' = char_of (111::nat)" "CHR ''O'' = char_of (79::nat)"
    "CHR ''s'' = char_of (115::nat)" "CHR ''S'' = char_of (83::nat)"
    "CHR ''t'' = char_of (116::nat)" "CHR ''T'' = char_of (84::nat)"
    by code_simp+
  show "lower_char c = CHR ''h'' \<Longrightarrow> c = CHR ''h'' \<or> c = CHR ''H''"
    using lower_char_pre [of c 104] unfolding e by simp
  show "lower_char c = CHR ''o'' \<Longrightarrow> c = CHR ''o'' \<or> c = CHR ''O''"
    using lower_char_pre [of c 111] unfolding e by simp
  show "lower_char c = CHR ''s'' \<Longrightarrow> c = CHR ''s'' \<or> c = CHR ''S''"
    using lower_char_pre [of c 115] unfolding e by simp
  show "lower_char c = CHR ''t'' \<Longrightarrow> c = CHR ''t'' \<or> c = CHR ''T''"
    using lower_char_pre [of c 116] unfolding e by simp
qed


lemma host_word:
  "lower [a, b, c, d] = ''host'' \<Longrightarrow>
     is_word a \<and> is_word b \<and> is_word c \<and> is_word d \<and> \<not> is_space a"
  by (auto simp: lower_def is_word_def is_space_def dest!: lower_char_cases)

lemma word_not_space: "is_space c \<Longrightarrow> \<not> is_word c"
  by (auto simp: is_space_def is_word_def)

lemma space_not_host: "is_space c \<Longrightarrow> lower_char c \<noteq> CHR ''h''"
  by (auto simp: is_space_def dest!: lower_char_cases)


lemma rtrim_keep:
  "\<not> P x \<Longrightarrow> rev (dropWhile P (rev (x # xs))) = x # rev (dropWhile P (rev xs))"
  by (simp add: dropWhile_append)

lemma rtrim_keep4:
  "\<not> P a \<Longrightarrow> \<not> P b \<Longrightarrow> \<not> P c \<Longrightarrow> \<not> P d \<Longrightarrow>
     rev (dropWhile P (rev (a # b # c # d # xs))) = a # b # c # d # rev (dropWhile P (rev xs))"
  by (simp add: dropWhile_append)

lemma rtrim_head:
  "rev (dropWhile P (rev (x # xs))) = [] \<or> (\<exists>t. rev (dropWhile P (rev (x # xs))) = x # t)"
proof (cases "\<forall>y\<in>set xs. P y")
  case True
  then show ?thesis by (auto simp: dropWhile_append)
next
  case False
  then have "rev (dropWhile P (rev (x # xs))) = x # rev (dropWhile P (rev xs))"
    by (simp add: dropWhile_append)
  then show ?thesis by blast
qed

lemma key_of_indented_host:
  assumes h: "lower [a, b, c, d] = ''host''" and s: "is_space s" and ws: "\<forall>c\<in>set ws. is_space c"
  shows "takeWhile is_word (strip (ws @ a # b # c # d # s # r)) = [a, b, c, d]"
proof -
  from h have w: "is_word a" "is_word b" "is_word c" "is_word d"
    using host_word by blast+
  then have n: "\<not> is_space a" "\<not> is_space b" "\<not> is_space c" "\<not> is_space d"
    using word_not_space by blast+
  have dw: "dropWhile is_space (ws @ a # b # c # d # s # r) = a # b # c # d # s # r"
    using ws n(1) by (simp add: dropWhile_append2)
  define t where "t = rev (dropWhile is_space (rev (s # r)))"
  have "strip (ws @ a # b # c # d # s # r) = a # b # c # d # t"
    unfolding strip_def strip_chars_def dw t_def using n by (rule rtrim_keep4)
  moreover have "takeWhile is_word t = []"
    using rtrim_head [of is_space s r] s word_not_space unfolding t_def [symmetric] by auto
  ultimately show ?thesis using w by simp
qed

lemma parse_line_ignored:
  assumes "HOST_LINE_RE (strip_nl raw) = None"
    and "lower (takeWhile is_word (strip (strip_nl raw))) \<notin> SUPPORTED_KEYS"
  shows "parse_line st raw = st"
  using assms
  by (auto simp: parse_line_def KV_RE_def Let_def split: option.splits if_splits)

lemma space_backoff_Some: "space_backoff k r = Some g \<Longrightarrow> 0 < k"
  by (cases k) auto

text \<open>
  C10.  A line that, once its newlines are stripped, is whitespace followed by a
  \<open>Host\<close> line is not matched by \<open>HOST_LINE_RE\<close> and leaves the parser's state as it
  was: the file parses as it does without the line, so the patterns of the line yield
  no record.
\<close>

theorem indented_host_line_ignored:
  assumes raw: "strip_nl raw = ws @ rest"
    and ws: "ws \<noteq> []" "\<forall>c\<in>set ws. is_space c"
    and rest: "HOST_LINE_RE rest = Some patterns"
  shows "HOST_LINE_RE (strip_nl raw) = None
    \<and> parse_line st raw = st
    \<and> parse_ssh_config (before @ raw # after) = parse_ssh_config (before @ after)"
proof -
  from rest have len: "4 \<le> length rest" and low: "lower (take 4 rest) = ''host''"
    and sp: "space_plus_rest (drop 4 rest) = Some patterns"
    by (auto simp: HOST_LINE_RE_def split: if_splits)
  from len obtain a b c d r where r: "rest = a # b # c # d # r"
    by (cases rest; simp; cases "tl rest"; simp; cases "tl (tl rest)"; simp; cases "tl (tl (tl rest))"; simp) 
  from low r have h: "lower [a, b, c, d] = ''host''" by simp
  from sp r have "0 < length (takeWhile is_space r)"
    using space_backoff_Some by (auto simp: space_plus_rest_def)
  then obtain s r0 where r0: "r = s # r0" and s: "is_space s"
    by (cases r) (auto split: if_splits)
  from ws obtain w ws' where w: "ws = w # ws'" "is_space w" by (cases ws) auto
  have no_host: "HOST_LINE_RE (strip_nl raw) = None"
    using space_not_host [OF w(2)] by (simp add: raw w HOST_LINE_RE_def lower_def)
  have "takeWhile is_word (strip (strip_nl raw)) = [a, b, c, d]"
    unfolding raw r r0 using key_of_indented_host [OF h s ws(2)] .
  then have "lower (takeWhile is_word (strip (strip_nl raw))) \<notin> SUPPORTED_KEYS"
    using h by (simp add: SUPPORTED_KEYS_def)
  with no_host have same: "\<And>st. parse_line st raw = st"
    by (rule parse_line_ignored)
  show ?thesis using no_host same by (simp add: parse_ssh_config_def)
qed


theorem indented_host_line_ignored_witness:
  "parse_ssh_config [''Host a'' @ [NL], ''  Host web9'' @ [NL], ''  User bob'']
     = parse_ssh_config [''Host a'' @ [NL], ''  User bob'']
   \<and> parse_ssh_config [''Host a'' @ [NL], ''  Host web9'' @ [NL], ''  User bob'']
     = [\<lparr>name = ''a'', hostname = None, user = Some ''bob'', port = None, identity_file = None\<rparr>]"
proof -
  have 1: "strip_nl (''  Host web9'' @ [NL]) = ''  '' @ ''Host web9''" by code_simp
  have 2: "''  '' \<noteq> []" by simp
  have 3: "\<forall>c\<in>set ''  ''. is_space c" by (simp add: is_space_def)
  have 4: "HOST_LINE_RE ''Host web9'' = Some ''web9''" by code_simp
  have 5: "parse_ssh_config [''Host a'' @ [NL], ''  User bob'']
     = [\<lparr>name = ''a'', hostname = None, user = Some ''bob'', port = None, identity_file = None\<rparr>]"
    by code_simp
  from indented_host_line_ignored [OF 1 2 3 4, of _ "[''Host a'' @ [NL]]" "[''  User bob'']"] 5
  show ?thesis by simp
qed

section \<open>The identity of the name \<open>A\<close>\<close>

lemma uuid5_A: "uuid5_str ''ssh-to-terminal:A'' = ''71ed0aab-b71c-5e1c-805b-2f53b7e84477''"
proof -
  let ?B = "[18, 52, 86, 120, 18, 52, 86, 120, 18, 52, 86, 120, 18, 52, 86, 120, 115, 115, 104, 45, 116, 111, 45, 116, 101, 114, 109, 105, 110, 97, 108, 58, 65, 128, 0, 0, 0, 0, 0, 0, 0, 0, 0, 0, 0, 0, 0, 0, 0, 0, 0, 0, 0, 0, 0, 0, 0, 0, 0, 0, 0, 0, 1, 8] :: byte list"
  have b: "blocks (sha1_pad (NAMESPACE @ utf8 ''ssh-to-terminal:A'')) = [?B]"
    by code_simp
  have w: "words_of ?B = [305419896, 305419896, 305419896, 305419896, 1936943149, 1953443188, 1701997929, 1851878458, 1098907648, 0, 0, 0, 0, 0, 0, 264]"
    by code_simp
  have p1: "rounds 20 f_ch 0x5A827999 ([305419896, 305419896, 305419896, 305419896, 1936943149, 1953443188, 1701997929, 1851878458, 1098907648, 0, 0, 0, 0, 0, 0, 264], 0x67452301, 0xEFCDAB89, 0x98BADCFE, 0x10325476, 0xC3D2E1F0) = ([738331272, 2969599977, 3699980001, 2227621748, 3875602386, 3104992707, 2358338460, 1533809558, 706793111, 2065840890, 164252398, 1573650903, 3143202597, 4108165736, 2141334770, 923261575], 1462992336, 1167614707, 2065840929, 795537101, 3388691640)"
    by code_simp
  have p2: "rounds 20 f_parity 0x6ED9EBA1 ([738331272, 2969599977, 3699980001, 2227621748, 3875602386, 3104992707, 2358338460, 1533809558, 706793111, 2065840890, 164252398, 1573650903, 3143202597, 4108165736, 2141334770, 923261575], 1462992336, 1167614707, 2065840929, 795537101, 3388691640) = ([1686850691, 945216786, 1106709187, 3884285648, 2392977550, 187234696, 3208504158, 3165695826, 1454497209, 2304937286, 3155316895, 3380373897, 2739854496, 1488961867, 814016960, 3162592496], 1599363290, 2831178248, 3888198895, 3203732444, 2939600272)"
    by code_simp
  have p3: "rounds 20 f_maj 0x8F1BBCDC ([1686850691, 945216786, 1106709187, 3884285648, 2392977550, 187234696, 3208504158, 3165695826, 1454497209, 2304937286, 3155316895, 3380373897, 2739854496, 1488961867, 814016960, 3162592496], 1599363290, 2831178248, 3888198895, 3203732444, 2939600272) = ([3178398704, 3780695976, 2126823578, 1749281320, 3124748244, 3848492475, 3509138597, 2603450617, 2545403479, 2828987757, 118634895, 507374607, 3080517425, 2430643117, 3688582719, 1460022804], 3574760432, 3739702895, 1741482942, 3557254907, 2717805878)"
    by code_simp
  have p4: "rounds 20 f_parity 0xCA62C1D6 ([3178398704, 3780695976, 2126823578, 1749281320, 3124748244, 3848492475, 3509138597, 2603450617, 2545403479, 2828987757, 118634895, 507374607, 3080517425, 2430643117, 3688582719, 1460022804], 3574760432, 3739702895, 1741482942, 3557254907, 2717805878) = ([1349403594, 2397101705, 1375159151, 1773535380, 789510369, 668139344, 3788357379, 685458547, 938871592, 1368901735, 1449797636, 4227215387, 3171612697, 1635249943, 3340221170, 1562312498], 178775978, 3343848083, 3886043733, 2813718529, 4277231018)"
    by code_simp
  have c: "compress (0x67452301, 0xEFCDAB89, 0x98BADCFE, 0x10325476, 0xC3D2E1F0) ?B = (1911360171, 3072114204, 2153459539, 3085452407, 3267641242)"
    unfolding compress_def prod.case w p1 p2 p3 p4 by simp
  have d: "uuid_str (take 16 (digest (1911360171, 3072114204, 2153459539, 3085452407, 3267641242))) = ''71ed0aab-b71c-5e1c-805b-2f53b7e84477''"
    by code_simp
  show ?thesis
    unfolding uuid5_str_def sha1_def b foldl.simps c d ..
qed

section \<open>The index \<open>by_name\<close> and the loop of \<open>upsert_profiles\<close>\<close>

lemma by_name_from_keys: "by_name_from i ps m = index_keys i (map key_of ps) m"
proof (induction ps arbitrary: i m)
  case Nil
  then show ?case by simp
next
  case (Cons p ps)
  then show ?case by (cases p) (simp_all add: fun_upd_def)
qed

lemma index_keys_snoc:
  "index_keys i (ks @ [k]) m =
     (case index_keys i ks m of
        Inl e \<Rightarrow> Inl e
      | Inr m' \<Rightarrow> index_keys (i + length ks) [k] m')"
proof (induction ks arbitrary: i m)
  case Nil
  then show ?case by simp
next
  case (Cons a ks)
  then show ?case by (cases a) (auto simp: fun_upd_def split: sum.splits)
qed

lemma by_name_snoc:
  "by_name (ps @ [p]) =
     (case by_name ps of
        Inl e \<Rightarrow> Inl e
      | Inr m \<Rightarrow>
          (case key_of p of
             None \<Rightarrow> Inr m
           | Some k \<Rightarrow> if hashable k then Inr (m(k \<mapsto> length ps)) else Inl TypeError))"
  by (simp add: by_name_def by_name_from_keys index_keys_snoc split: sum.splits option.splits)

lemma by_name_update:
  "i < length ps \<Longrightarrow> key_of p = key_of (ps ! i) \<Longrightarrow> by_name (ps[i := p]) = by_name ps"
proof -
  assume i: "i < length ps" and k: "key_of p = key_of (ps ! i)"
  have "(map key_of ps)[i := key_of p] = map key_of ps"
    using i k by (simp add: list_update_same_conv)
  then show ?thesis
    by (simp add: by_name_def by_name_from_keys map_update)
qed

text \<open>the index stored under a key is that of the last entry with the key\<close>

lemma by_name_Some:
  "by_name ps = Inr m \<Longrightarrow> m k = Some i \<Longrightarrow>
     i < length ps \<and> key_of (ps ! i) = Some k \<and> (\<forall>j. i < j \<and> j < length ps \<longrightarrow> key_of (ps ! j) \<noteq> Some k)"
proof (induction ps arbitrary: m rule: rev_induct)
  case Nil
  then show ?case by (auto simp: by_name_def)
next
  case (snoc p ps)
  from snoc.prems(1) obtain m0 where m0: "by_name ps = Inr m0"
    by (auto simp: by_name_snoc split: sum.splits)
  show ?case
  proof (cases "key_of p = Some k")
    case True
    with snoc.prems m0 have "i = length ps"
      by (auto simp: by_name_snoc split: if_splits)
    with True show ?thesis by auto
  next
    case False
    with snoc.prems m0 have "m0 k = Some i"
      by (auto simp: by_name_snoc split: option.splits if_splits)
    from snoc.IH [OF m0 this] False show ?thesis
      by (auto simp: nth_append less_Suc_eq)
  qed
qed

lemma by_name_None:
  "by_name ps = Inr m \<Longrightarrow> m k = None \<Longrightarrow> p \<in> set ps \<Longrightarrow> key_of p \<noteq> Some k"
proof (induction ps arbitrary: m rule: rev_induct)
  case Nil
  then show ?case by simp
next
  case (snoc q ps)
  from snoc.prems(1) obtain m0 where m0: "by_name ps = Inr m0"
    by (auto simp: by_name_snoc split: sum.splits)
  from snoc.prems m0 have q: "key_of q \<noteq> Some k" and "m0 k = None"
    by (auto simp: by_name_snoc split: option.splits if_splits)
  with snoc.IH [OF m0] snoc.prems(3) show ?case by auto
qed

lemma key_of_named: "key_of p = Some (JStr n) \<longleftrightarrow> named n p \<and> n \<noteq> []"
  by (cases p) (auto simp: named_def)

lemma key_of_truthy: "key_of p = Some k \<Longrightarrow> truthy k"
  by (cases p) (auto split: if_splits)

lemma profile_named: "profile u h = Inr pr \<Longrightarrow> named (name h) pr"
  by (auto simp: profile_def named_def dict_get_def split: sum.splits)

lemma profile_key:
  "profile u h = Inr pr \<Longrightarrow> key_of pr = (if name h = [] then None else Some (JStr (name h)))"
  by (auto simp: profile_def dict_get_def split: sum.splits)

lemma agrees_lookup:
  assumes "agrees bn L" and "bn k = Some i"
  shows "i < length L \<and> key_of (L ! i) = Some k"
  using assms by_name_Some unfolding agrees_def by blast

lemma agrees_update:
  assumes ag: "agrees bn L" and bn: "bn (JStr (name h)) = Some i" and pr: "profile u h = Inr pr"
  shows "agrees bn (L[i := pr])"
proof -
  from agrees_lookup [OF ag bn] have i: "i < length L" and k: "key_of (L ! i) = Some (JStr (name h))"
    by auto
  from k have "name h \<noteq> []" using key_of_truthy by fastforce
  with pr k have "key_of pr = key_of (L ! i)" by (simp add: profile_key)
  from by_name_update [OF i this] ag show ?thesis by (simp add: agrees_def)
qed

lemma agrees_append:
  assumes ag: "agrees bn L" and bn: "bn (JStr (name h)) = None" and pr: "profile u h = Inr pr"
  shows "agrees bn (L @ [pr])"
proof -
  from ag obtain m where m: "by_name L = Inr m" "\<forall>k i. bn k = Some i \<longrightarrow> m k = Some i"
    by (auto simp: agrees_def)
  show ?thesis
  proof (cases "name h = []")
    case True
    with pr m show ?thesis by (auto simp: agrees_def by_name_snoc profile_key)
  next
    case False
    with pr m(1) have "by_name (L @ [pr]) = Inr (m(JStr (name h) \<mapsto> length L))"
      by (simp add: by_name_snoc profile_key)
    moreover have "\<forall>k i. bn k = Some i \<longrightarrow> (m(JStr (name h) \<mapsto> length L)) k = Some i"
      using m(2) bn by auto
    ultimately show ?thesis unfolding agrees_def by blast
  qed
qed

lemma upsert_loop_rule:
  assumes run: "upsert_loop u bn L0 rest = Returns L'"
    and ag: "agrees bn L0"
    and q0: "Q done L0"
    and r: "\<forall>h\<in>set rest. R h"
    and upd: "\<And>done L h pr i. \<lbrakk>Q done L; agrees bn L; profile u h = Inr pr;
        bn (JStr (name h)) = Some i; i < length L; key_of (L ! i) = Some (JStr (name h)); R h\<rbrakk>
        \<Longrightarrow> Q (done @ [h]) (L[i := pr])"
    and app: "\<And>done L h pr. \<lbrakk>Q done L; agrees bn L; profile u h = Inr pr;
        bn (JStr (name h)) = None; R h\<rbrakk> \<Longrightarrow> Q (done @ [h]) (L @ [pr])"
  shows "Q (done @ rest) L' \<and> agrees bn L'"
  using run ag q0 r
proof (induction rest arbitrary: L0 "done")
  case Nil
  then show ?case by simp
next
  case (Cons h rest)
  from Cons.prems(1) obtain pr where pr: "profile u h = Inr pr"
    by (auto split: sum.splits)
  from Cons.prems(4) have rh: "R h" and rr: "\<forall>h\<in>set rest. R h" by auto
  show ?case
  proof (cases "bn (JStr (name h))")
    case None
    with Cons.prems(1) pr have run': "upsert_loop u bn (L0 @ [pr]) rest = Returns L'" by simp
    have "Q (done @ [h]) (L0 @ [pr])" using app [OF Cons.prems(3,2) pr None rh] .
    from Cons.IH [OF run' agrees_append [OF Cons.prems(2) None pr] this rr]
    show ?thesis by simp
  next
    case (Some i)
    from agrees_lookup [OF Cons.prems(2) Some]
    have i: "i < length L0" and k: "key_of (L0 ! i) = Some (JStr (name h))" by auto
    with Cons.prems(1) pr Some have run': "upsert_loop u bn (L0[i := pr]) rest = Returns L'" by simp
    have "Q (done @ [h]) (L0[i := pr])" using upd [OF Cons.prems(3,2) pr Some i k rh] .
    from Cons.IH [OF run' agrees_update [OF Cons.prems(2) Some pr] this rr]
    show ?thesis by simp
  qed
qed

lemma agrees_self: "by_name P = Inr bn \<Longrightarrow> agrees bn P"
  by (simp add: agrees_def)

lemma last_profile_snoc:
  "profile u h = Inr pr \<Longrightarrow>
     last_profile u (hs @ [h]) n = (if name h = n then Some pr else last_profile u hs n)"
  by (induction hs) (auto split: option.splits)

lemma last_profile_None:
  "\<forall>h\<in>set hs. name h \<noteq> n \<Longrightarrow> last_profile u hs n = None"
  by (induction hs) auto

lemma last_profile_Some_in:
  "last_profile u hs n = Some pr \<Longrightarrow> \<exists>h\<in>set hs. name h = n \<and> profile u h = Inr pr"
  by (induction hs) (auto split: option.splits if_splits sum.splits)

lemma last_profile_defined:
  "h \<in> set hs \<Longrightarrow> \<forall>h\<in>set hs. \<exists>pr. profile u h = Inr pr \<Longrightarrow> last_profile u hs (name h) \<noteq> None"
  by (induction hs) (auto split: option.splits)

lemma placed_update:
  assumes q: "placed u hs L" and ag: "agrees bn L" and pr: "profile u h = Inr pr"
    and bn: "bn (JStr (name h)) = Some i"
    and i: "i < length L" and k: "key_of (L ! i) = Some (JStr (name h))"
  shows "placed u (hs @ [h]) (L[i := pr])"
proof -
  from k have ne: "name h \<noteq> []" using key_of_truthy by fastforce
  with pr k have same: "key_of pr = key_of (L ! i)" by (simp add: profile_key)
  have bnu: "by_name (L[i := pr]) = by_name L" by (rule by_name_update [OF i same])
  have ok: "\<forall>h\<in>set (hs @ [h]). \<exists>pr. profile u h = Inr pr"
    using q pr by (auto simp: placed_def)
  have "\<exists>m j. by_name (L[i := pr]) = Inr m \<and> m (JStr (name g)) = Some j
            \<and> last_profile u (hs @ [h]) (name g) = Some (L[i := pr] ! j)"
    if g: "g \<in> set (hs @ [h])" and gne: "name g \<noteq> []" for g
  proof (cases "name g = name h")
    case True
    from ag bn obtain m where m: "by_name L = Inr m" and j: "m (JStr (name h)) = Some i"
      by (auto simp: agrees_def)
    then show ?thesis using bnu pr i True by (auto simp: last_profile_snoc)
  next
    case False
    with g have gin: "g \<in> set hs" by auto
    with q gne obtain m j where m: "by_name L = Inr m" and j: "m (JStr (name g)) = Some j"
      and lp: "last_profile u hs (name g) = Some (L ! j)"
      by (auto simp: placed_def)
    from by_name_Some [OF m j] have "j < length L" "key_of (L ! j) = Some (JStr (name g))" by auto
    with k False have "j \<noteq> i" by auto
    then show ?thesis using m j lp bnu pr False by (auto simp: last_profile_snoc)
  qed
  with ok show ?thesis unfolding placed_def by blast
qed

lemma placed_append:
  assumes q: "placed u hs L" and ag: "agrees bn L" and pr: "profile u h = Inr pr"
    and bn: "bn (JStr (name h)) = None"
  shows "placed u (hs @ [h]) (L @ [pr])"
proof -
  from ag obtain m where m: "by_name L = Inr m" by (auto simp: agrees_def)
  have ok: "\<forall>h\<in>set (hs @ [h]). \<exists>pr. profile u h = Inr pr"
    using q pr by (auto simp: placed_def)
  have "\<exists>m j. by_name (L @ [pr]) = Inr m \<and> m (JStr (name g)) = Some j
            \<and> last_profile u (hs @ [h]) (name g) = Some ((L @ [pr]) ! j)"
    if g: "g \<in> set (hs @ [h])" and gne: "name g \<noteq> []" for g
  proof (cases "name g = name h")
    case True
    with gne pr m have "by_name (L @ [pr]) = Inr (m(JStr (name h) \<mapsto> length L))"
      by (simp add: by_name_snoc profile_key)
    then show ?thesis using pr True by (auto simp: last_profile_snoc)
  next
    case False
    with g have gin: "g \<in> set hs" by auto
    with q gne m obtain j where j: "m (JStr (name g)) = Some j"
      and lp: "last_profile u hs (name g) = Some (L ! j)"
      by (auto simp: placed_def)
    from by_name_Some [OF m j] have jl: "j < length L" by auto
    have "\<exists>m'. by_name (L @ [pr]) = Inr m' \<and> m' (JStr (name g)) = Some j"
      using m j pr False by (auto simp: by_name_snoc profile_key)
    then show ?thesis using lp jl pr False by (auto simp: last_profile_snoc nth_append)
  qed
  with ok show ?thesis unfolding placed_def by blast
qed

lemma first_run:
  assumes bn: "by_name P = Inr bn" and run: "upsert_loop u bn P H = Returns L"
  shows "placed u H L \<and> agrees bn L"
proof -
  have init: "placed u [] P" by (simp add: placed_def)
  have "placed u ([] @ H) L \<and> agrees bn L"
    by (rule upsert_loop_rule [where Q = "placed u" and ?done = "[]" and R = "\<lambda>h. True",
          OF run agrees_self [OF bn] init])
       (simp, (rule placed_update placed_append; assumption)+)
  then show ?thesis by simp
qed

lemma second_run:
  assumes "\<forall>h\<in>set hs. \<exists>pr. profile u h = Inr pr"
    and "\<forall>h\<in>set hs. \<exists>j. bn1 (JStr (name h)) = Some j \<and> j < length L1
            \<and> last_profile u hs (name h) = Some (L1 ! j)"
    and "length xs = length L1"
    and "\<forall>j<length L1. xs ! j \<noteq> L1 ! j \<longrightarrow> (\<exists>h\<in>set hs. bn1 (JStr (name h)) = Some j)"
  shows "upsert_loop u bn1 xs hs = Returns L1"
  using assms
proof (induction hs arbitrary: xs)
  case Nil
  then show ?case by (simp add: nth_equalityI)
next
  case (Cons h hs)
  from Cons.prems(1) obtain pr where pr: "profile u h = Inr pr" by auto
  from Cons.prems(2) obtain j where j: "bn1 (JStr (name h)) = Some j" "j < length L1"
    and lp: "last_profile u (h # hs) (name h) = Some (L1 ! j)" by auto
  have ok: "\<forall>h\<in>set hs. \<exists>pr. profile u h = Inr pr" using Cons.prems(1) by simp
  have 2: "\<forall>g\<in>set hs. \<exists>j. bn1 (JStr (name g)) = Some j \<and> j < length L1
            \<and> last_profile u hs (name g) = Some (L1 ! j)"
  proof
    fix g assume g: "g \<in> set hs"
    with Cons.prems(2) obtain i where i: "bn1 (JStr (name g)) = Some i" "i < length L1"
      "last_profile u (h # hs) (name g) = Some (L1 ! i)" by auto
    from last_profile_defined [OF g ok] i(3) have "last_profile u hs (name g) = Some (L1 ! i)"
      by (auto split: option.splits)
    with i show "\<exists>j. bn1 (JStr (name g)) = Some j \<and> j < length L1
            \<and> last_profile u hs (name g) = Some (L1 ! j)" by blast
  qed
  have 3: "length (xs[j := pr]) = length L1" using Cons.prems(3) by simp
  have 4: "\<forall>i<length L1. xs[j := pr] ! i \<noteq> L1 ! i \<longrightarrow> (\<exists>h\<in>set hs. bn1 (JStr (name h)) = Some i)"
  proof (intro allI impI)
    fix i assume i: "i < length L1" and d: "xs[j := pr] ! i \<noteq> L1 ! i"
    show "\<exists>h\<in>set hs. bn1 (JStr (name h)) = Some i"
    proof (cases "i = j")
      case True
      with d j(2) Cons.prems(3) have ne: "pr \<noteq> L1 ! j" by simp
      have "\<exists>g\<in>set hs. name g = name h"
      proof (rule ccontr)
        assume "\<not> (\<exists>g\<in>set hs. name g = name h)"
        then have "last_profile u hs (name h) = None" by (intro last_profile_None) auto
        with lp pr ne show False by simp
      qed
      then obtain g where "g \<in> set hs" "name g = name h" by blast
      with j(1) True have "g \<in> set hs \<and> bn1 (JStr (name g)) = Some i" by simp
      then show ?thesis by blast
    next
      case False
      with d have "xs ! i \<noteq> L1 ! i" by simp
      with Cons.prems(4) i obtain g where "g \<in> set (h # hs)" "bn1 (JStr (name g)) = Some i" by blast
      with False j(1) show ?thesis by auto
    qed
  qed
  from Cons.IH [OF ok 2 3 4] pr j Cons.prems(3) show ?case by simp
qed

lemma upsert_loop_again:
  assumes bn: "by_name P = Inr bn" and run: "upsert_loop u bn P H = Returns L"
    and ne: "\<forall>h\<in>set H. name h \<noteq> []"
  shows "\<exists>bn1. by_name L = Inr bn1 \<and> upsert_loop u bn1 L H = Returns L"
proof -
  from first_run [OF bn run] have pl: "placed u H L" and ag: "agrees bn L" by auto
  from ag obtain bn1 where bn1: "by_name L = Inr bn1" by (auto simp: agrees_def)
  have 1: "\<forall>h\<in>set H. \<exists>pr. profile u h = Inr pr" using pl by (simp add: placed_def)
  have 2: "\<forall>h\<in>set H. \<exists>j. bn1 (JStr (name h)) = Some j \<and> j < length L
            \<and> last_profile u H (name h) = Some (L ! j)"
  proof
    fix h assume "h \<in> set H"
    with pl ne bn1 obtain j where j: "bn1 (JStr (name h)) = Some j"
      "last_profile u H (name h) = Some (L ! j)" by (auto simp: placed_def)
    with by_name_Some [OF bn1 j(1)]
    show "\<exists>j. bn1 (JStr (name h)) = Some j \<and> j < length L
            \<and> last_profile u H (name h) = Some (L ! j)" by blast
  qed
  have "upsert_loop u bn1 L H = Returns L"
    by (rule second_run [OF 1 2]) simp_all
  with bn1 show ?thesis by blast
qed

lemma upsert_loop_append:
  "upsert_loop u bn L (pre @ rest) =
     (case upsert_loop u bn L pre of
        Returns L' \<Rightarrow> upsert_loop u bn L' rest
      | Raises e L' \<Rightarrow> Raises e L')"
  by (induction pre arbitrary: L) (auto split: sum.splits option.splits)

lemma upsert_loop_Raises:
  assumes "upsert_loop u bn L0 rest = Raises e L'" and "agrees bn L0"
  shows "\<exists>pre h post. rest = pre @ h # post \<and> upsert_loop u bn L0 pre = Returns L'
           \<and> profile u h = Inl e"
  using assms
proof (induction rest arbitrary: L0)
  case Nil
  then show ?case by simp
next
  case (Cons h rest)
  show ?case
  proof (cases "profile u h")
    case (Inl e')
    with Cons.prems(1) have "e' = e" "L' = L0" by auto
    with Inl have "h # rest = [] @ h # rest \<and> upsert_loop u bn L0 [] = Returns L' \<and> profile u h = Inl e"
      by simp
    then show ?thesis by blast
  next
    case (Inr pr)
    show ?thesis
    proof (cases "bn (JStr (name h))")
      case None
      with Cons.prems(1) Inr have "upsert_loop u bn (L0 @ [pr]) rest = Raises e L'" by simp
      from Cons.IH [OF this agrees_append [OF Cons.prems(2) None Inr]]
      obtain pre g post where "rest = pre @ g # post" "upsert_loop u bn (L0 @ [pr]) pre = Returns L'"
        "profile u g = Inl e" by blast
      with None Inr have "h # rest = (h # pre) @ g # post \<and> upsert_loop u bn L0 (h # pre) = Returns L'
         \<and> profile u g = Inl e" by simp
      then show ?thesis by blast
    next
      case (Some i)
      from agrees_lookup [OF Cons.prems(2) Some] have i: "i < length L0" by simp
      with Cons.prems(1) Inr Some have "upsert_loop u bn (L0[i := pr]) rest = Raises e L'" by simp
      from Cons.IH [OF this agrees_update [OF Cons.prems(2) Some Inr]]
      obtain pre g post where "rest = pre @ g # post" "upsert_loop u bn (L0[i := pr]) pre = Returns L'"
        "profile u g = Inl e" by blast
      with Some Inr i have "h # rest = (h # pre) @ g # post \<and> upsert_loop u bn L0 (h # pre) = Returns L'
         \<and> profile u g = Inl e" by simp
      then show ?thesis by blast
    qed
  qed
qed

lemma upsert_twice_gen:
  assumes ne: "\<forall>h\<in>set H. name h \<noteq> []"
  shows "upsert_profiles u (final (upsert_profiles u P H)) H = upsert_profiles u P H"
proof (cases "by_name P")
  case (Inl e)
  then show ?thesis by (simp add: upsert_profiles_def)
next
  case (Inr bn)
  show ?thesis
  proof (cases "upsert_loop u bn P H")
    case (Returns L)
    from upsert_loop_again [OF Inr Returns ne] Inr Returns
    show ?thesis by (auto simp: upsert_profiles_def)
  next
    case (Raises e L)
    from upsert_loop_Raises [OF Raises agrees_self [OF Inr]]
    obtain pre h post where H: "H = pre @ h # post" and pre: "upsert_loop u bn P pre = Returns L"
      and h: "profile u h = Inl e" by blast
    from ne H have "\<forall>h\<in>set pre. name h \<noteq> []" by simp
    from upsert_loop_again [OF Inr pre this]
    obtain bn1 where "by_name L = Inr bn1" "upsert_loop u bn1 L pre = Returns L" by blast
    with h have "upsert_profiles u L H = Raises e L"
      by (simp add: upsert_profiles_def H upsert_loop_append)
    with Inr Raises show ?thesis by (simp add: upsert_profiles_def)
  qed
qed

lemma remove_loop_eq:
  "remove_loop u N keep ps =
     (if \<exists>p\<in>set ps. unhashable_name p then Inl TypeError
      else Inr (keep @ filter (\<lambda>p. \<not> (name_in N p \<or> (N = {} \<and> tool_owned u p))) ps))"
proof (induction ps arbitrary: keep)
  case Nil
  then show ?case by simp
next
  case (Cons p ps)
  then show ?case by (cases p) (auto simp: Let_def)
qed

lemma remove_profiles_eq:
  "remove_profiles u P H =
     (if \<exists>p\<in>set P. unhashable_name p then Raises TypeError P
      else Returns (filter (\<lambda>p. \<not> (name_in (set (map name H)) p \<or> (H = [] \<and> tool_owned u p))) P))"
  by (simp add: remove_profiles_def remove_loop_eq)

lemma named_fun: "named n p \<Longrightarrow> named n' p \<Longrightarrow> n = n'"
  by (cases p) (auto simp: named_def)

lemma filter_update_same:
  "i < length L \<Longrightarrow> Q x = Q (L ! i) \<Longrightarrow> length (filter Q (L[i := x])) = length (filter Q L)"
proof (induction L arbitrary: i)
  case Nil
  then show ?case by simp
next
  case (Cons a L)
  then show ?case by (cases i) auto
qed

lemma filter_update_out:
  "i < length L \<Longrightarrow> \<not> Q x \<Longrightarrow> \<not> Q (L ! i) \<Longrightarrow> filter Q (L[i := x]) = filter Q L"
proof (induction L arbitrary: i)
  case Nil
  then show ?case by simp
next
  case (Cons a L)
  then show ?case by (cases i) auto
qed

lemma counted_update:
  assumes q: "counted P bn hs L" and pr: "profile u h = Inr pr"
    and bn: "bn (JStr (name h)) = Some i"
    and i: "i < length L" and k: "key_of (L ! i) = Some (JStr (name h))"
  shows "counted P bn (hs @ [h]) (L[i := pr])"
proof -
  from k have old: "named (name h) (L ! i)" by (simp add: key_of_named)
  from pr have new: "named (name h) pr" by (rule profile_named)
  have "named n pr = named n (L ! i)" for n
    using old new named_fun by blast
  then have "count_named n (L[i := pr]) = count_named n L" for n
    unfolding count_named_def using i by (intro filter_update_same) auto
  with q bn show ?thesis by (auto simp: counted_def)
qed

lemma counted_append:
  assumes q: "counted P bn hs L" and pr: "profile u h = Inr pr"
    and bn: "bn (JStr (name h)) = None"
  shows "counted P bn (hs @ [h]) (L @ [pr])"
proof -
  from pr have new: "named (name h) pr" by (rule profile_named)
  have "named n pr \<longleftrightarrow> n = name h" for n
    using new named_fun by blast
  then have "count_named n (L @ [pr]) = count_named n L + (if n = name h then 1 else 0)" for n
    by (simp add: count_named_def)
  with q bn show ?thesis by (auto simp: counted_def)
qed

lemma upsert_counts:
  assumes bn: "by_name P = Inr bn" and run: "upsert_loop u bn P H = Returns L"
  shows "counted P bn H L"
proof -
  have init: "counted P bn [] P" by (simp add: counted_def)
  have "counted P bn ([] @ H) L \<and> agrees bn L"
    by (rule upsert_loop_rule [where Q = "counted P bn" and ?done = "[]" and R = "\<lambda>h. True",
          OF run agrees_self [OF bn] init])
       (simp, (rule counted_update counted_append; assumption)+)
  then show ?thesis by simp
qed

text \<open>entries outside a set of names are untouched\<close>

lemma named_name_in: "named n p \<Longrightarrow> n \<in> N \<Longrightarrow> name_in N p"
  by (cases p) (auto simp: named_def)

lemma upsert_others:
  assumes bn: "by_name P = Inr bn" and run: "upsert_loop u bn P H = Returns L"
    and N: "set (map name H) \<subseteq> N"
  shows "filter (\<lambda>p. \<not> name_in N p) L = filter (\<lambda>p. \<not> name_in N p) P"
proof -
  let ?Q = "\<lambda>(hs :: SshHost list) L. filter (\<lambda>p. \<not> name_in N p) L = filter (\<lambda>p. \<not> name_in N p) P"
  have init: "?Q [] P" by simp
  have r: "\<forall>h\<in>set H. name h \<in> N" using N by auto
  have "?Q ([] @ H) L \<and> agrees bn L"
  proof (rule upsert_loop_rule [where Q = ?Q and ?done = "[]" and R = "\<lambda>h. name h \<in> N",
          OF run agrees_self [OF bn] init r])
    fix hs L h pr i
    assume q: "?Q hs L" and pr: "profile u h = Inr pr" and i: "i < length L"
      and k: "key_of (L ! i) = Some (JStr (name h))" and n: "name h \<in> N"
    from k have "named (name h) (L ! i)" by (simp add: key_of_named)
    then have "name_in N (L ! i)" using n by (rule named_name_in)
    moreover from pr have "name_in N pr" using n profile_named named_name_in by blast
    ultimately have "filter (\<lambda>p. \<not> name_in N p) (L[i := pr]) = filter (\<lambda>p. \<not> name_in N p) L"
      using i by (intro filter_update_out) auto
    with q show "?Q (hs @ [h]) (L[i := pr])" by simp
  next
    fix hs L h pr
    assume q: "?Q hs L" and pr: "profile u h = Inr pr" and n: "name h \<in> N"
    from pr have "name_in N pr" using n profile_named named_name_in by blast
    with q show "?Q (hs @ [h]) (L @ [pr])" by simp
  qed
  then show ?thesis by simp
qed

section \<open>Matching a host against the list\<close>

lemma by_name_last:
  assumes bn: "by_name P = Inr bn" and i: "i < length P" and k: "key_of (P ! i) = Some k"
    and last: "\<forall>j. i < j \<and> j < length P \<longrightarrow> key_of (P ! j) \<noteq> Some k"
  shows "bn k = Some i"
proof (cases "bn k")
  case None
  from by_name_None [OF bn None, of "P ! i"] i k show ?thesis by auto
next
  case (Some j)
  from by_name_Some [OF bn Some] have j: "j < length P" "key_of (P ! j) = Some k"
    "\<forall>j'. j < j' \<and> j' < length P \<longrightarrow> key_of (P ! j') \<noteq> Some k" by auto
  have "j = i"
  proof (rule ccontr)
    assume "j \<noteq> i"
    then consider "j < i" | "i < j" by linarith
    then show False using i j k last by cases auto
  qed
  with Some show ?thesis by simp
qed

lemma upsert_Returns:
  assumes "upsert_profiles u P H = Returns L"
  obtains bn where "by_name P = Inr bn" "upsert_loop u bn P H = Returns L"
  using assms by (auto simp: upsert_profiles_def split: sum.splits)

lemma upsert_places:
  assumes run: "upsert_profiles u P H = Returns L"
    and h: "h \<in> set H" and ne: "name h \<noteq> []"
    and i: "i < length P" and nm: "named (name h) (P ! i)"
    and last: "\<forall>j. i < j \<and> j < length P \<longrightarrow> \<not> named (name h) (P ! j)"
  shows "\<exists>h'\<in>set H. name h' = name h \<and> profile u h' = Inr (L ! i)"
proof -
  from run obtain bn where bn: "by_name P = Inr bn" and loop: "upsert_loop u bn P H = Returns L"
    by (rule upsert_Returns)
  have "bn (JStr (name h)) = Some i"
    using by_name_last [OF bn i, of "JStr (name h)"] nm ne last by (auto simp: key_of_named)
  moreover from first_run [OF bn loop] have pl: "placed u H L" and ag: "agrees bn L" by auto
  ultimately obtain m where m: "by_name L = Inr m" "m (JStr (name h)) = Some i"
    by (auto simp: agrees_def)
  with pl h ne have "last_profile u H (name h) = Some (L ! i)" by (auto simp: placed_def)
  then show ?thesis by (rule last_profile_Some_in)
qed


lemma profile_hostA: "profile uuid5_lib hostA = Inr profileA"
  by (simp add: profile_def guid_def uuid5_lib_def hostA_def profileA_def uuid5_A commandline_def)

lemma name_hostA: "name hostA = ''A''"
  by (simp add: hostA_def)

lemma distinct_filter_eq_le1: "distinct xs \<Longrightarrow> length (filter (\<lambda>x. x = n) xs) \<le> 1"
  by (induction xs) (auto simp: filter_empty_conv)

lemma named_profileA: "named ''A'' profileA"
  by (simp add: named_def profileA_def dict_get_def)

section \<open>What \<open>upsert_profiles\<close> leaves where a profile existed\<close>

text \<open>
  C9.  When \<open>upsert_profiles\<close> returns, the entry it matched for a host (the last dict
  of the list whose \<open>name\<close> is the host's name) has been replaced by a dict of exactly
  the four items \<open>name\<close>, \<open>commandline\<close>, \<open>guid\<close>, \<open>hidden\<close>, built from a host of that
  name alone: whatever other items the old entry had (\<open>source\<close>, \<open>colorScheme\<close>, ...)
  are gone.
\<close>

theorem upsert_replaces_wholesale:
  assumes run: "upsert_profiles u P H = Returns L"
    and h: "h \<in> set H" and ne: "name h \<noteq> []"
    and i: "i < length P" and old: "P ! i = JDict items"
    and nm: "dict_get items ''name'' = JStr (name h)"
    and last: "\<forall>j. i < j \<and> j < length P \<longrightarrow> \<not> named (name h) (P ! j)"
  shows "\<exists>h'\<in>set H. \<exists>g. name h' = name h \<and> guid u h' = Inr g \<and>
     L ! i = JDict [(''name'', JStr (name h)), (''commandline'', JStr (commandline h')),
                    (''guid'', JStr (''{'' @ g @ ''}'')), (''hidden'', JBool False)]"
proof -
  from old nm have "named (name h) (P ! i)" by (simp add: named_def)
  from upsert_places [OF run h ne i this last]
  obtain h' where h': "h' \<in> set H" "name h' = name h" "profile u h' = Inr (L ! i)" by blast
  from h'(3) obtain g where "guid u h' = Inr g"
    "L ! i = JDict [(''name'', JStr (name h')), (''commandline'', JStr (commandline h')),
                    (''guid'', JStr (''{'' @ g @ ''}'')), (''hidden'', JBool False)]"
    by (auto simp: profile_def split: sum.splits)
  with h'(1,2) show ?thesis by auto
qed

theorem upsert_replaces_wholesale_witness:
  "upsert_profiles uuid5_lib
     [JDict [(''name'', JStr ''A''), (''source'', JStr ''mine''), (''colorScheme'', JStr ''Dark'')]]
     [hostA]
   = Returns [JDict [(''name'', JStr ''A''), (''commandline'', JStr ''ssh a.example''),
                     (''guid'', JStr ''{71ed0aab-b71c-5e1c-805b-2f53b7e84477}''),
                     (''hidden'', JBool False)]]"
proof -
  let ?old = "[(''name'', JStr ''A''), (''source'', JStr ''mine''), (''colorScheme'', JStr ''Dark'')]"
  have run: "upsert_profiles uuid5_lib [JDict ?old] [hostA] = Returns [profileA]"
    by (simp add: upsert_profiles_def by_name_def dict_get_def profile_hostA name_hostA)
  have 1: "hostA \<in> set [hostA]" by simp
  have 2: "name hostA \<noteq> []" by (simp add: name_hostA)
  have 3: "(0::nat) < length [JDict ?old]" by simp
  have 4: "[JDict ?old] ! 0 = JDict ?old" by simp
  have 5: "dict_get ?old ''name'' = JStr (name hostA)" by (simp add: dict_get_def name_hostA)
  have 6: "\<forall>j. 0 < j \<and> j < length [JDict ?old] \<longrightarrow> \<not> named (name hostA) ([JDict ?old] ! j)"
    by simp
  from upsert_replaces_wholesale [OF run 1 2 3 4 5 6]
  have "\<exists>g. [profileA] ! 0 = JDict [(''name'', JStr (name hostA)),
      (''commandline'', JStr (commandline hostA)), (''guid'', JStr (''{'' @ g @ ''}'')),
      (''hidden'', JBool False)]"
    by auto
  with run show ?thesis by (simp add: profileA_def)
qed

section \<open>Positions and multiplicities after \<open>upsert_profiles\<close>\<close>

text \<open>
  C1 (as amended).  After \<open>upsert_profiles\<close> returns: where a dict with a host's
  (non-empty) name existed, the new profile of that name stands at the position of the
  \<^emph>\<open>last\<close> dict with that name; no name is carried by fewer dicts than before, so names
  that were duplicated stay duplicated; and if the hosts have pairwise distinct,
  non-empty names and no name was duplicated in the list, no name is duplicated
  afterwards.
\<close>

theorem upsert_position_and_count:
  assumes run: "upsert_profiles u P H = Returns L"
  shows "(\<forall>h\<in>set H. \<forall>i. name h \<noteq> [] \<and> i < length P \<and> named (name h) (P ! i)
             \<and> (\<forall>j. i < j \<and> j < length P \<longrightarrow> \<not> named (name h) (P ! j))
           \<longrightarrow> (\<exists>h'\<in>set H. name h' = name h \<and> profile u h' = Inr (L ! i)))
       \<and> (\<forall>n. count_named n P \<le> count_named n L)
       \<and> (distinct (map name H) \<and> (\<forall>h\<in>set H. name h \<noteq> []) \<and> (\<forall>n. count_named n P \<le> 1)
           \<longrightarrow> (\<forall>n. count_named n L \<le> 1))"
proof (intro conjI ballI allI impI)
  fix h i
  assume "h \<in> set H" and "name h \<noteq> [] \<and> i < length P \<and> named (name h) (P ! i)
             \<and> (\<forall>j. i < j \<and> j < length P \<longrightarrow> \<not> named (name h) (P ! j))"
  then show "\<exists>h'\<in>set H. name h' = name h \<and> profile u h' = Inr (L ! i)"
    using upsert_places [OF run] by blast
next
  from run obtain bn where bn: "by_name P = Inr bn" and loop: "upsert_loop u bn P H = Returns L"
    by (rule upsert_Returns)
  from upsert_counts [OF bn loop] have c: "counted P bn H L" .
  fix n
  show "count_named n P \<le> count_named n L" using c by (simp add: counted_def)
  assume a: "distinct (map name H) \<and> (\<forall>h\<in>set H. name h \<noteq> []) \<and> (\<forall>n. count_named n P \<le> 1)"
  show "count_named n L \<le> 1"
  proof (cases "bn (JStr n) = None \<and> n \<in> set (map name H)")
    case False
    then have "count_named n L = count_named n P"
      using c by (auto simp: counted_def filter_empty_conv)
    with a show ?thesis by simp
  next
    case True
    with a have ne: "n \<noteq> []" by auto
    have "\<not> named n p" if "p \<in> set P" for p
      using by_name_None [OF bn _ that, of "JStr n"] True ne by (simp add: key_of_named)
    then have "count_named n P = 0" by (simp add: count_named_def filter_empty_conv)
    moreover have "length (filter (\<lambda>h. name h = n) H) \<le> 1"
      using distinct_filter_eq_le1 [of "map name H" n] a by (simp add: filter_map comp_def)
    ultimately show ?thesis using c True by (simp add: counted_def)
  qed
qed


theorem upsert_position_and_count_witness:
  "final (upsert_profiles uuid5_lib
            [JDict [(''name'', JStr ''A''), (''source'', JStr ''mine'')], JDict [(''name'', JStr ''B'')]]
            [hostA]) ! 0 = profileA
   \<and> count_named ''A'' (final (upsert_profiles uuid5_lib
            [JDict [(''name'', JStr ''A''), (''source'', JStr ''mine'')], JDict [(''name'', JStr ''B'')]]
            [hostA])) \<le> 1"
proof -
  let ?P = "[JDict [(''name'', JStr ''A''), (''source'', JStr ''mine'')], JDict [(''name'', JStr ''B'')]]"
  let ?L = "[profileA, JDict [(''name'', JStr ''B'')]]"
  have run: "upsert_profiles uuid5_lib ?P [hostA] = Returns ?L"
    by (simp add: upsert_profiles_def by_name_def dict_get_def profile_hostA name_hostA)
  have one: "\<forall>n. count_named n ?P \<le> 1"
    by (auto simp: count_named_def named_def dict_get_def)
  have pos: "name hostA \<noteq> [] \<and> (0::nat) < length ?P \<and> named (name hostA) (?P ! 0)
             \<and> (\<forall>j. 0 < j \<and> j < length ?P \<longrightarrow> \<not> named (name hostA) (?P ! j))"
    by (auto simp: name_hostA named_def dict_get_def)
  from upsert_position_and_count [OF run] pos one
  have "(\<exists>h'\<in>set [hostA]. name h' = name hostA \<and> profile uuid5_lib h' = Inr (?L ! 0))
        \<and> (\<forall>n. count_named n ?L \<le> 1)"
    by (auto simp: name_hostA)
  then show ?thesis by (simp add: run profile_hostA)
qed

text \<open>
  C1 as stated fails: with two dicts named \<open>A\<close> in the list, both are still there after
  the call, the first as it was and the new profile in the place of the second; and two
  hosts of one new name are appended twice.
\<close>

theorem upsert_dedup_counterexample:
  "upsert_profiles uuid5_lib
     [JDict [(''name'', JStr ''A''), (''hidden'', JBool True)], JDict [(''name'', JStr ''A'')]]
     [hostA]
   = Returns [JDict [(''name'', JStr ''A''), (''hidden'', JBool True)], profileA]
   \<and> count_named ''A'' [JDict [(''name'', JStr ''A''), (''hidden'', JBool True)], profileA] = 2
   \<and> upsert_profiles uuid5_lib [] [hostA, hostA] = Returns [profileA, profileA]"
  by (simp add: upsert_profiles_def by_name_def dict_get_def profile_hostA name_hostA
      count_named_def named_def profileA_def)

section \<open>Applying \<open>upsert_profiles\<close> twice\<close>

text \<open>
  C3 (as amended).  For every profile list and every host list whose names are all
  non-empty, a second \<open>upsert_profiles\<close> with the same hosts leaves the list as the
  first one left it, element for element, and ends as the first one did (it returns, or
  raises the same exception).
\<close>

theorem upsert_twice:
  assumes "\<forall>h\<in>set H. name h \<noteq> []"
  shows "upsert_profiles u (final (upsert_profiles u P H)) H = upsert_profiles u P H"
  using assms by (rule upsert_twice_gen)

theorem upsert_twice_witness:
  "upsert_profiles uuid5_lib
     (final (upsert_profiles uuid5_lib [JDict [(''name'', JStr ''A''), (''source'', JStr ''mine'')]] [hostA]))
     [hostA]
   = Returns [profileA]"
proof -
  have "\<forall>h\<in>set [hostA]. name h \<noteq> []" by (simp add: name_hostA)
  from upsert_twice [OF this, of uuid5_lib "[JDict [(''name'', JStr ''A''), (''source'', JStr ''mine'')]]"]
  show ?thesis
    by (simp add: upsert_profiles_def by_name_def dict_get_def profile_hostA name_hostA)
qed

text \<open>
  C3 as stated fails for a host whose name is empty: \<open>by_name\<close> never holds the empty
  name, so each application appends the profile again.
\<close>

theorem upsert_twice_counterexample:
  "length (final (upsert_profiles uuid5_lib []
      [\<lparr>name = [], hostname = Some ''a.example'', user = None, port = None, identity_file = None\<rparr>])) = 1
   \<and> length (final (upsert_profiles uuid5_lib
        (final (upsert_profiles uuid5_lib []
           [\<lparr>name = [], hostname = Some ''a.example'', user = None, port = None, identity_file = None\<rparr>]))
        [\<lparr>name = [], hostname = Some ''a.example'', user = None, port = None, identity_file = None\<rparr>])) = 2"
  by (simp add: upsert_profiles_def by_name_def dict_get_def profile_def guid_def uuid5_lib_def)

section \<open>\<open>upsert_profiles\<close>, then \<open>remove_profiles\<close>\<close>

lemma upsert_no_hosts: "upsert_profiles u P [] = Returns P' \<Longrightarrow> P' = P"
  by (auto simp: upsert_profiles_def split: sum.splits)

text \<open>
  C2 (as amended).  When \<open>upsert_profiles(P, H)\<close> returns with the list \<open>P'\<close> and
  \<open>remove_profiles(P', H)\<close> returns, the result has no entry whose name is a name of
  \<open>H\<close>, and it consists, in their original order, of exactly the entries of \<open>P\<close> whose
  name is not a name of \<open>H\<close>; except that with no hosts the entries of \<open>P\<close> whose guid
  is the braced identity of their own name are removed as well.
\<close>

theorem upsert_then_remove:
  assumes up: "upsert_profiles u P H = Returns P'"
    and rm: "remove_profiles u P' H = Returns L"
  shows "(\<forall>p\<in>set L. \<not> name_in (set (map name H)) p)
       \<and> L = filter (\<lambda>p. \<not> name_in (set (map name H)) p \<and> \<not> (H = [] \<and> tool_owned u p)) P"
proof -
  let ?N = "set (map name H)"
  from rm have L: "L = filter (\<lambda>p. \<not> (name_in ?N p \<or> (H = [] \<and> tool_owned u p))) P'"
    by (simp add: remove_profiles_eq split: if_splits)
  have "L = filter (\<lambda>p. \<not> name_in ?N p \<and> \<not> (H = [] \<and> tool_owned u p)) P"
  proof (cases "H = []")
    case True
    with up have "P' = P" using upsert_no_hosts by blast
    with L show ?thesis by simp
  next
    case False
    from up obtain bn where bn: "by_name P = Inr bn" and loop: "upsert_loop u bn P H = Returns P'"
      by (rule upsert_Returns)
    from upsert_others [OF bn loop, of ?N] False L show ?thesis by simp
  qed
  then show ?thesis by auto
qed

theorem upsert_then_remove_witness:
  "remove_profiles uuid5_lib
     (final (upsert_profiles uuid5_lib
        [JInt 7, JDict [(''name'', JStr ''B'')], JDict [(''name'', JStr ''A''), (''source'', JStr ''mine'')]]
        [hostA]))
     [hostA]
   = Returns [JInt 7, JDict [(''name'', JStr ''B'')]]"
proof -
  let ?P = "[JInt 7, JDict [(''name'', JStr ''B'')], JDict [(''name'', JStr ''A''), (''source'', JStr ''mine'')]]"
  let ?P' = "[JInt 7, JDict [(''name'', JStr ''B'')], profileA]"
  let ?L = "[JInt 7, JDict [(''name'', JStr ''B'')]]"
  have up: "upsert_profiles uuid5_lib ?P [hostA] = Returns ?P'"
    by (simp add: upsert_profiles_def by_name_def dict_get_def profile_hostA name_hostA)
  have rm: "remove_profiles uuid5_lib ?P' [hostA] = Returns ?L"
    by (simp add: remove_profiles_def dict_get_def name_hostA profileA_def)
  from upsert_then_remove [OF up rm] up rm show ?thesis by simp
qed

text \<open>
  C2 as stated fails with no hosts: the profile named \<open>A\<close> with the identity of \<open>A\<close> as
  its guid is in no set of host names, and is removed.
\<close>

theorem upsert_then_remove_counterexample:
  "upsert_profiles uuid5_lib [profileA] [] = Returns [profileA]
   \<and> remove_profiles uuid5_lib [profileA] [] = Returns []"
  by (simp add: upsert_profiles_def by_name_def remove_profiles_def dict_get_def profileA_def
      guid_def uuid5_lib_def uuid5_A)

section \<open>\<open>remove_profiles\<close> with no hosts\<close>

text \<open>With no hosts: a \<open>TypeError\<close>, or exactly the tool-owned profiles are removed.\<close>

lemma remove_no_hosts:
  "remove_profiles u P [] =
     (if \<exists>p\<in>set P. unhashable_name p then Raises TypeError P
      else Returns (filter (\<lambda>p. \<not> tool_owned u p) P))"
proof -
  have "name_in {} p = False" for p
  proof (cases p)
    case (JDict items)
    then show ?thesis by (cases "dict_get items ''name''") simp_all
  qed simp_all
  then show ?thesis by (simp add: remove_profiles_eq)
qed

text \<open>
  C4.  With no hosts, \<open>remove_profiles\<close> is to remove exactly the tool-owned profiles.
  On a list with a dict whose \<open>name\<close> is a list (or a dict) the test \<open>n in names\<close>
  raises \<open>TypeError\<close> instead: nothing is removed, a tool-owned profile stays.  (Without
  such a dict, \<open>remove_no_hosts\<close> above: exactly the tool-owned profiles go.)
\<close>

theorem remove_no_hosts_unhashable_name:
  "remove_profiles uuid5_lib [JDict [(''name'', JList [JStr ''x''])], profileA] []
     = Raises TypeError [JDict [(''name'', JList [JStr ''x''])], profileA]
   \<and> tool_owned uuid5_lib profileA"
  by (simp add: remove_profiles_def dict_get_def profileA_def guid_def uuid5_lib_def uuid5_A)

text \<open>
  C5.  Whatever the list and the hosts, the entries that are not dicts are all in the
  list \<open>remove_profiles\<close> leaves, unchanged and in their order; and with no hosts the
  same holds of the dicts for whose name the identity cannot be computed.
\<close>

theorem remove_keeps_foreign:
  "filter (\<lambda>p. \<not> is_dict p) (final (remove_profiles u P H)) = filter (\<lambda>p. \<not> is_dict p) P
   \<and> filter (identity_raises u) (final (remove_profiles u P [])) = filter (identity_raises u) P"
proof -
  have 1: "\<not> is_dict p \<Longrightarrow> \<not> (name_in N p \<or> b \<and> tool_owned u p)" for p N b
    by (cases p) simp_all
  have 2: "identity_raises u p \<Longrightarrow> \<not> tool_owned u p" for p
  proof (cases p)
    case (JDict items)
    assume "identity_raises u p"
    with JDict show ?thesis
      by (cases "dict_get items ''name''"; cases "dict_get items ''guid''")
         (auto split: sum.splits)
  qed simp_all
  have "filter (\<lambda>p. \<not> is_dict p) (filter (\<lambda>p. \<not> (name_in N p \<or> b \<and> tool_owned u p)) P)
      = filter (\<lambda>p. \<not> is_dict p) P" for N b
    using 1 by (auto intro: filter_cong)
  then have a: "filter (\<lambda>p. \<not> is_dict p) (final (remove_profiles u P H)) = filter (\<lambda>p. \<not> is_dict p) P"
    by (simp add: remove_profiles_eq)
  have "filter (identity_raises u) (filter (\<lambda>p. \<not> tool_owned u p) P)
      = filter (identity_raises u) P"
    using 2 by (auto intro: filter_cong)
  then have b: "filter (identity_raises u) (final (remove_profiles u P [])) = filter (identity_raises u) P"
    by (simp add: remove_no_hosts)
  from a b show ?thesis ..
qed

theorem remove_keeps_foreign_witness:
  "final (remove_profiles uuid5_raising
     [JInt 1, JDict [(''name'', JStr ''A''), (''guid'', JStr ''{71ed0aab-b71c-5e1c-805b-2f53b7e84477}'')], JStr ''s'']
     [])
   = [JInt 1, JDict [(''name'', JStr ''A''), (''guid'', JStr ''{71ed0aab-b71c-5e1c-805b-2f53b7e84477}'')], JStr ''s'']"
  using remove_keeps_foreign [of uuid5_raising
     "[JInt 1, JDict [(''name'', JStr ''A''), (''guid'', JStr ''{71ed0aab-b71c-5e1c-805b-2f53b7e84477}'')], JStr ''s'']" "[]"]
  by (simp add: remove_profiles_def dict_get_def guid_def uuid5_raising_def)

section \<open>\<open>main\<close> without an action\<close>

text \<open>
  C8.  When the parsed arguments select neither \<open>add\<close> nor \<open>remove\<close>, \<open>main\<close> ends at
  once with the status 2, which is not the status 0 of success, after logging one error
  message; the files are as they were (nothing is loaded, reconciled or saved).
\<close>

theorem main_without_action:
  assumes "lib_parse_args ev argv = Inr a" and "\<not> add a" and "\<not> remove a"
  shows "main ev argv w =
           (Exit 2, w\<lparr>logged := logged w @ [(''ERROR'', ''No action specified. Use --add and/or --remove.'')]\<rparr>)
       \<and> fst (main ev argv w) \<noteq> Exit 0
       \<and> files (snd (main ev argv w)) = files w"
  using assms by (simp add: main_def emit_def)

theorem main_without_action_witness:
  "main (sample_env False False) [] sample_world =
     (Exit 2, sample_world\<lparr>logged := [(''ERROR'', ''No action specified. Use --add and/or --remove.'')]\<rparr>)"
proof -
  have 1: "lib_parse_args (sample_env False False) [] = Inr (sample_args False False)"
    by (simp add: sample_env_def)
  have 2: "\<not> add (sample_args False False)" "\<not> remove (sample_args False False)"
    by (simp_all add: sample_args_def)
  from main_without_action [OF 1 2, of sample_world] show ?thesis
    by (simp add: sample_world_def)
qed

text \<open>With \<open>add\<close> selected the same run ends with the status 0 and has written the settings file.\<close>

lemma main_with_add:
  "fst (main (sample_env True False) [] sample_world) = Exit 0
   \<and> files sample_world ''/tmp/settings.json'' = None
   \<and> files (snd (main (sample_env True False) [] sample_world)) ''/tmp/settings.json''
       = Some (Text [''<json>''])"
proof -
  have p: "parse_ssh_config sample_config = [hostA]"
    unfolding hostA_def sample_config_def by code_simp
  have l: "list_ex (\<lambda>line. HOST_LINE_RE (rstrip_nl line) \<noteq> None) sample_config"
    unfolding sample_config_def by code_simp
  show ?thesis
    by (simp add: main_def reconcile_def sample_env_def sample_args_def emit_def p l Let_def
        load_settings_def sample_world_def ensure_profiles_container_def dict_get_def
        upsert_profiles_def by_name_def profile_hostA name_hostA save_settings_def
        discover_ssh_config_files_def looks_like_ssh_config_def)
qed

end
